theory Spec2Isabelle
  imports Complex_Main
begin

section \<open>Data model of \<^verbatim>\<open>src/parser.py\<close>\<close>

text \<open>
  A Python \<^verbatim>\<open>str\<close> is a sequence of code points. The model uses \<^typ>\<open>string\<close>, so a
  character is a code point below 256, and \<^verbatim>\<open>str.isdigit\<close> and \<^verbatim>\<open>str.isalpha\<close> are
  given by their values on that range. Every exception the source can raise is a
  value: the scanner and the parser raise \<^verbatim>\<open>ValueError\<close> with a message, the builtins
  \<^verbatim>\<open>int\<close> and \<^verbatim>\<open>float\<close> raise \<^verbatim>\<open>ValueError\<close>, and indexing a sequence out of range
  raises \<^verbatim>\<open>IndexError\<close>. The interpreter's recursion limit and CPython's optional limit
  on the length of an integer literal are outside the model.
\<close>

datatype error = ValueError string | IndexError

text \<open>
  A Python \<^verbatim>\<open>float\<close> obtained from a decimal text is represented by that decimal: sign,
  coefficient and number of fractional digits. It stands for the binary64 value that
  \<^verbatim>\<open>float\<close> rounds the decimal to, so \<^verbatim>\<open>float("3.14")\<close> is
  \<open>Float_of_decimal False 314 2\<close>.
\<close>

datatype pyfloat = Float_of_decimal (negative: bool) (coefficient: nat) (frac_digits: nat)

definition decimal_value :: "pyfloat \<Rightarrow> rat" where
  "decimal_value f =
     (if negative f then - 1 else 1) * of_nat (coefficient f) / 10 ^ frac_digits f"

text \<open>
  \<^verbatim>\<open>JsonValue = Union[dict, list, str, int, float, bool, None]\<close>. A \<^verbatim>\<open>dict\<close> keeps its
  keys in insertion order, so it is an association list.
\<close>

datatype pyval =
    PNone
  | PBool bool
  | PInt int
  | PFloat pyfloat
  | PStr string
  | PList "pyval list"
  | PDict "(pyval \<times> pyval) list"

text \<open>The class \<^verbatim>\<open>TokenType\<close>: string constants.\<close>

definition TokenType_STRING :: string where "TokenType_STRING = ''STRING''"
definition TokenType_NUMBER :: string where "TokenType_NUMBER = ''NUMBER''"
definition TokenType_BOOLEAN :: string where "TokenType_BOOLEAN = ''BOOLEAN''"
definition TokenType_NULL :: string where "TokenType_NULL = ''NULL''"
definition TokenType_LEFT_BRACE :: string where "TokenType_LEFT_BRACE = ''{''"
definition TokenType_RIGHT_BRACE :: string where "TokenType_RIGHT_BRACE = ''}''"
definition TokenType_LEFT_BRACKET :: string where "TokenType_LEFT_BRACKET = ''[''"
definition TokenType_RIGHT_BRACKET :: string where "TokenType_RIGHT_BRACKET = '']''"
definition TokenType_COMMA :: string where "TokenType_COMMA = '',''"
definition TokenType_COLON :: string where "TokenType_COLON = '':''"
definition TokenType_EOF :: string where "TokenType_EOF = ''EOF''"

lemmas TokenType_defs =
  TokenType_STRING_def TokenType_NUMBER_def TokenType_BOOLEAN_def TokenType_NULL_def
  TokenType_LEFT_BRACE_def TokenType_RIGHT_BRACE_def TokenType_LEFT_BRACKET_def
  TokenType_RIGHT_BRACKET_def TokenType_COMMA_def TokenType_COLON_def TokenType_EOF_def

text \<open>The class \<^verbatim>\<open>Token\<close>: a type and a value.\<close>

datatype token = Token (ttype: string) (tvalue: pyval)

section \<open>Python builtins used by the scanner\<close>

definition dquote :: char where "dquote = CHR 0x22"
definition squote :: char where "squote = CHR 0x27"
definition backslash :: char where "backslash = CHR 0x5C"

text \<open>\<^verbatim>\<open>c.isdigit()\<close> for a code point below 256: the ASCII digits and the superscripts
  U+00B2, U+00B3, U+00B9.\<close>

definition isdigit :: "char \<Rightarrow> bool" where
  "isdigit c = (let n = (of_char c :: nat) in
     (48 \<le> n \<and> n \<le> 57) \<or> n = 0xB2 \<or> n = 0xB3 \<or> n = 0xB9)"

text \<open>\<^verbatim>\<open>c.isalpha()\<close> for a code point below 256.\<close>

definition isalpha :: "char \<Rightarrow> bool" where
  "isalpha c = (let n = (of_char c :: nat) in
     (0x41 \<le> n \<and> n \<le> 0x5A) \<or> (0x61 \<le> n \<and> n \<le> 0x7A) \<or> n = 0xAA \<or> n = 0xB5 \<or> n = 0xBA
     \<or> (0xC0 \<le> n \<and> n \<le> 0xD6) \<or> (0xD8 \<le> n \<and> n \<le> 0xF6) \<or> (0xF8 \<le> n \<and> n \<le> 0xFF))"

text \<open>\<^verbatim>\<open>s.isdigit()\<close> and \<^verbatim>\<open>s.isalpha()\<close> on a string: false on the empty string.\<close>

definition str_isdigit :: "string \<Rightarrow> bool" where
  "str_isdigit s = (s \<noteq> [] \<and> list_all isdigit s)"

definition str_isalpha :: "string \<Rightarrow> bool" where
  "str_isalpha s = (s \<noteq> [] \<and> list_all isalpha s)"

text \<open>The characters \<^verbatim>\<open>int\<close> and \<^verbatim>\<open>float\<close> read as decimal digits, below 256.\<close>

definition isdecimal :: "char \<Rightarrow> bool" where
  "isdecimal c = (let n = (of_char c :: nat) in 48 \<le> n \<and> n \<le> 57)"

definition digit_value :: "char \<Rightarrow> nat" where
  "digit_value c = of_char c - 48"

definition decimal_of :: "string \<Rightarrow> nat" where
  "decimal_of ds = foldl (\<lambda>n c. 10 * n + digit_value c) 0 ds"

text \<open>\<^verbatim>\<open>repr\<close> of a string of printable characters without quotes or backslashes.\<close>

definition repr :: "string \<Rightarrow> string" where
  "repr s = [squote] @ s @ [squote]"

text \<open>
  \<^verbatim>\<open>int(text)\<close> and \<^verbatim>\<open>float(text)\<close> on the texts \<^verbatim>\<open>scan_number\<close> can pass: a digit or
  \<^verbatim>\<open>-\<close>, then digits and decimal points. Other texts the builtins accept (a \<^verbatim>\<open>+\<close> sign,
  blanks, underscores, exponents, \<^verbatim>\<open>inf\<close>, \<^verbatim>\<open>nan\<close>) cannot reach them from this
  program and are not modelled.
\<close>

definition split_sign :: "string \<Rightarrow> bool \<times> string" where
  "split_sign text =
     (case text of [] \<Rightarrow> (False, [])
      | c # cs \<Rightarrow> if c = CHR ''-'' then (True, cs) else (False, text))"

definition py_int :: "string \<Rightarrow> error + int" where
  "py_int text =
     (case split_sign text of (neg, body) \<Rightarrow>
        if body \<noteq> [] \<and> list_all isdecimal body
        then Inr ((if neg then - 1 else 1) * int (decimal_of body))
        else Inl (ValueError (''invalid literal for int() with base 10: '' @ repr text)))"

definition py_float :: "string \<Rightarrow> error + pyfloat" where
  "py_float text =
     (case split_sign text of (neg, body) \<Rightarrow>
        let ip = takeWhile (\<lambda>c. c \<noteq> CHR ''.'') body;
            fp = drop 1 (dropWhile (\<lambda>c. c \<noteq> CHR ''.'') body)
        in if list_all isdecimal ip \<and> list_all isdecimal fp \<and> ip @ fp \<noteq> []
           then Inr (Float_of_decimal neg (decimal_of (ip @ fp)) (length fp))
           else Inl (ValueError (''could not convert string to float: '' @ repr text)))"

text \<open>\<^verbatim>\<open>s[start:stop]\<close> for indices that are not negative.\<close>

definition slice :: "'a list \<Rightarrow> nat \<Rightarrow> nat \<Rightarrow> 'a list" where
  "slice s start stop = take (stop - start) (drop start s)"

section \<open>The class \<^verbatim>\<open>Scanner\<close>\<close>

text \<open>
  The field \<^verbatim>\<open>source\<close> never changes and is a parameter; the field \<^verbatim>\<open>current\<close> is the
  state, passed in and returned.
\<close>

definition is_at_end :: "string \<Rightarrow> nat \<Rightarrow> bool" where
  "is_at_end src cur = (cur \<ge> length src)"

definition Scanner_advance :: "string \<Rightarrow> nat \<Rightarrow> error + (char \<times> nat)" where
  "Scanner_advance src cur =
     (if cur < length src then Inr (src ! cur, cur + 1) else Inl IndexError)"

definition Scanner_peek :: "string \<Rightarrow> nat \<Rightarrow> string" where
  "Scanner_peek src cur = (if \<not> is_at_end src cur then [src ! cur] else [])"

function scan_string_loop :: "string \<Rightarrow> nat \<Rightarrow> error + nat" where
  "scan_string_loop src cur =
     (if Scanner_peek src cur \<noteq> [dquote] \<and> \<not> is_at_end src cur
      then (case Scanner_advance src cur of
              Inl e \<Rightarrow> Inl e
            | Inr (c, cur') \<Rightarrow> scan_string_loop src cur')
      else Inr cur)"
  by pat_completeness auto
termination
  by (relation "measure (\<lambda>(src, cur). length src - cur)")
     (auto simp: Scanner_advance_def is_at_end_def split: if_splits)

declare scan_string_loop.simps [simp del]

definition scan_string :: "string \<Rightarrow> nat \<Rightarrow> error + (token \<times> nat)" where
  "scan_string src cur =
     (let start = cur in
      case scan_string_loop src cur of
        Inl e \<Rightarrow> Inl e
      | Inr cur1 \<Rightarrow>
          if is_at_end src cur1 then Inl (ValueError ''Unterminated string'')
          else (case Scanner_advance src cur1 of
                  Inl e \<Rightarrow> Inl e
                | Inr (c, cur2) \<Rightarrow>
                    Inr (Token TokenType_STRING (PStr (slice src start (cur2 - 1))), cur2)))"

function scan_number_loop :: "string \<Rightarrow> string \<Rightarrow> nat \<Rightarrow> error + (string \<times> nat)" where
  "scan_number_loop src number cur =
     (if str_isdigit (Scanner_peek src cur) \<or> Scanner_peek src cur = ''.''
      then (case Scanner_advance src cur of
              Inl e \<Rightarrow> Inl e
            | Inr (c, cur') \<Rightarrow> scan_number_loop src (number @ [c]) cur')
      else Inr (number, cur))"
  by pat_completeness auto
termination
  by (relation "measure (\<lambda>(src, number, cur). length src - cur)")
     (auto simp: Scanner_advance_def Scanner_peek_def is_at_end_def str_isdigit_def
           split: if_splits)

declare scan_number_loop.simps [simp del]

definition scan_number :: "string \<Rightarrow> char \<Rightarrow> nat \<Rightarrow> error + (token \<times> nat)" where
  "scan_number src first_char cur =
     (case scan_number_loop src [first_char] cur of
        Inl e \<Rightarrow> Inl e
      | Inr (number, cur') \<Rightarrow>
          if CHR ''.'' \<in> set number
          then (case py_float number of
                  Inl e \<Rightarrow> Inl e
                | Inr f \<Rightarrow> Inr (Token TokenType_NUMBER (PFloat f), cur'))
          else (case py_int number of
                  Inl e \<Rightarrow> Inl e
                | Inr i \<Rightarrow> Inr (Token TokenType_NUMBER (PInt i), cur')))"

function scan_keyword_loop :: "string \<Rightarrow> string \<Rightarrow> nat \<Rightarrow> error + (string \<times> nat)" where
  "scan_keyword_loop src word cur =
     (if str_isalpha (Scanner_peek src cur)
      then (case Scanner_advance src cur of
              Inl e \<Rightarrow> Inl e
            | Inr (c, cur') \<Rightarrow> scan_keyword_loop src (word @ [c]) cur')
      else Inr (word, cur))"
  by pat_completeness auto
termination
  by (relation "measure (\<lambda>(src, word, cur). length src - cur)")
     (auto simp: Scanner_advance_def Scanner_peek_def is_at_end_def str_isalpha_def
           split: if_splits)

declare scan_keyword_loop.simps [simp del]

definition scan_keyword :: "string \<Rightarrow> char \<Rightarrow> nat \<Rightarrow> error + (token \<times> nat)" where
  "scan_keyword src first_char cur =
     (case scan_keyword_loop src [first_char] cur of
        Inl e \<Rightarrow> Inl e
      | Inr (word, cur') \<Rightarrow>
          if word = ''true'' then Inr (Token TokenType_BOOLEAN (PBool True), cur')
          else if word = ''false'' then Inr (Token TokenType_BOOLEAN (PBool False), cur')
          else if word = ''null'' then Inr (Token TokenType_NULL PNone, cur')
          else Inl (ValueError (''Unexpected keyword: '' @ word)))"

text \<open>
  The three inner loops stop at the first character that fails their test, or at the end
  of the source; the cursor they return is what the main loop resumes from.
\<close>

lemma scan_string_loop_eq:
  "scan_string_loop src cur =
     Inr (cur + length (takeWhile (\<lambda>c. c \<noteq> dquote) (drop cur src)))"
proof (induction src cur rule: scan_string_loop.induct)
  case (1 src cur)
  show ?case
  proof (cases "Scanner_peek src cur \<noteq> [dquote] \<and> \<not> is_at_end src cur")
    case True
    then have lt: "cur < length src" and ne: "src ! cur \<noteq> dquote"
      by (auto simp: is_at_end_def Scanner_peek_def)
    have adv: "Scanner_advance src cur = Inr (src ! cur, cur + 1)"
      using lt by (simp add: Scanner_advance_def)
    have dr: "drop cur src = src ! cur # drop (cur + 1) src"
      using lt by (simp add: Cons_nth_drop_Suc)
    have "scan_string_loop src cur = scan_string_loop src (cur + 1)"
      using True adv by (subst scan_string_loop.simps) simp
    also have "\<dots> = Inr (cur + 1 + length (takeWhile (\<lambda>c. c \<noteq> dquote) (drop (cur + 1) src)))"
      using "1.IH"[OF True adv refl] .
    finally show ?thesis using dr ne by simp
  next
    case False
    then have "cur < length src \<Longrightarrow> src ! cur = dquote"
      by (auto simp: is_at_end_def Scanner_peek_def)
    then have "takeWhile (\<lambda>c. c \<noteq> dquote) (drop cur src) = []"
      by (cases "cur < length src") (simp_all add: Cons_nth_drop_Suc[symmetric])
    then show ?thesis
      by (subst scan_string_loop.simps, subst if_not_P[OF False]) simp
  qed
qed

lemma scan_number_loop_eq:
  "scan_number_loop src number cur =
     Inr (number @ takeWhile (\<lambda>c. isdigit c \<or> c = CHR ''.'') (drop cur src),
          cur + length (takeWhile (\<lambda>c. isdigit c \<or> c = CHR ''.'') (drop cur src)))"
proof (induction src number cur rule: scan_number_loop.induct)
  case (1 src number cur)
  let ?P = "\<lambda>c. isdigit c \<or> c = CHR ''.''"
  let ?C = "str_isdigit (Scanner_peek src cur) \<or> Scanner_peek src cur = ''.''"
  show ?case
  proof (cases ?C)
    case True
    then have lt: "cur < length src" and p: "?P (src ! cur)"
      by (auto simp: is_at_end_def Scanner_peek_def str_isdigit_def split: if_splits)
    have adv: "Scanner_advance src cur = Inr (src ! cur, cur + 1)"
      using lt by (simp add: Scanner_advance_def)
    have dr: "drop cur src = src ! cur # drop (cur + 1) src"
      using lt by (simp add: Cons_nth_drop_Suc)
    have "scan_number_loop src number cur = scan_number_loop src (number @ [src ! cur]) (cur + 1)"
      using True adv by (subst scan_number_loop.simps) simp
    also note "1.IH"[OF True adv refl]
    finally show ?thesis using dr p by simp
  next
    case False
    then have "cur < length src \<Longrightarrow> \<not> ?P (src ! cur)"
      by (auto simp: is_at_end_def Scanner_peek_def str_isdigit_def)
    then have "takeWhile ?P (drop cur src) = []"
      by (cases "cur < length src") (simp_all add: Cons_nth_drop_Suc[symmetric])
    with False show ?thesis
      by (subst scan_number_loop.simps) simp
  qed
qed

lemma scan_keyword_loop_eq:
  "scan_keyword_loop src word cur =
     Inr (word @ takeWhile isalpha (drop cur src),
          cur + length (takeWhile isalpha (drop cur src)))"
proof (induction src word cur rule: scan_keyword_loop.induct)
  case (1 src word cur)
  let ?C = "str_isalpha (Scanner_peek src cur)"
  show ?case
  proof (cases ?C)
    case True
    then have lt: "cur < length src" and p: "isalpha (src ! cur)"
      by (auto simp: is_at_end_def Scanner_peek_def str_isalpha_def split: if_splits)
    have adv: "Scanner_advance src cur = Inr (src ! cur, cur + 1)"
      using lt by (simp add: Scanner_advance_def)
    have dr: "drop cur src = src ! cur # drop (cur + 1) src"
      using lt by (simp add: Cons_nth_drop_Suc)
    have "scan_keyword_loop src word cur = scan_keyword_loop src (word @ [src ! cur]) (cur + 1)"
      using True adv by (subst scan_keyword_loop.simps) simp
    also note "1.IH"[OF True adv refl]
    finally show ?thesis using dr p by simp
  next
    case False
    then have "cur < length src \<Longrightarrow> \<not> isalpha (src ! cur)"
      by (auto simp: is_at_end_def Scanner_peek_def str_isalpha_def)
    then have "takeWhile isalpha (drop cur src) = []"
      by (cases "cur < length src") (simp_all add: Cons_nth_drop_Suc[symmetric])
    with False show ?thesis
      by (subst scan_keyword_loop.simps) simp
  qed
qed

lemma scan_string_ge: "scan_string src cur = Inr (t, cur') \<Longrightarrow> cur < cur'"
  by (auto simp: scan_string_def scan_string_loop_eq Scanner_advance_def Let_def
           split: if_splits)

lemma scan_number_ge: "scan_number src c cur = Inr (t, cur') \<Longrightarrow> cur \<le> cur'"
  by (auto simp: scan_number_def scan_number_loop_eq split: if_splits sum.splits)

lemma scan_keyword_ge: "scan_keyword src c cur = Inr (t, cur') \<Longrightarrow> cur \<le> cur'"
  by (auto simp: scan_keyword_def scan_keyword_loop_eq split: if_splits)

text \<open>
  The main loop of \<^verbatim>\<open>scan_tokens\<close>. The string of blank, tab, newline and carriage
  return that the first test reads is \<open>whitespace\<close>.
\<close>

definition whitespace :: string where
  "whitespace = [CHR '' '', CHR 0x09, CHR 0x0A, CHR 0x0D]"

function scan_tokens_loop :: "string \<Rightarrow> token list \<Rightarrow> nat \<Rightarrow> error + token list" where
  "scan_tokens_loop src tokens cur =
     (if \<not> is_at_end src cur
      then (case Scanner_advance src cur of
              Inl e \<Rightarrow> Inl e
            | Inr (char, cur1) \<Rightarrow>
                if char \<in> set whitespace then scan_tokens_loop src tokens cur1
                else if char \<in> set ''{}[],:''
                then scan_tokens_loop src (tokens @ [Token [char] (PStr [char])]) cur1
                else if char = dquote
                then (case scan_string src cur1 of
                        Inl e \<Rightarrow> Inl e
                      | Inr (t, cur2) \<Rightarrow> scan_tokens_loop src (tokens @ [t]) cur2)
                else if isdigit char \<or> char = CHR ''-''
                then (case scan_number src char cur1 of
                        Inl e \<Rightarrow> Inl e
                      | Inr (t, cur2) \<Rightarrow> scan_tokens_loop src (tokens @ [t]) cur2)
                else if isalpha char
                then (case scan_keyword src char cur1 of
                        Inl e \<Rightarrow> Inl e
                      | Inr (t, cur2) \<Rightarrow> scan_tokens_loop src (tokens @ [t]) cur2)
                else Inl (ValueError (''Unexpected character: '' @ [char])))
      else Inr (tokens @ [Token TokenType_EOF PNone]))"
  by pat_completeness auto
termination
proof (relation "measure (\<lambda>(src, tokens, cur). length src - cur)", goal_cases)
  case 1
  show ?case by simp
next
  case (2 src tokens cur x2 char cur1)
  then show ?case by (auto simp: Scanner_advance_def is_at_end_def split: if_splits)
next
  case (3 src tokens cur x2 char cur1)
  then show ?case by (auto simp: Scanner_advance_def is_at_end_def split: if_splits)
next
  case (4 src tokens cur x2 char cur1 x2a t cur2)
  then show ?case
    by (auto simp: Scanner_advance_def is_at_end_def split: if_splits dest!: scan_string_ge)
next
  case (5 src tokens cur x2 char cur1 x2a t cur2)
  then show ?case
    by (auto simp: Scanner_advance_def is_at_end_def split: if_splits dest!: scan_number_ge)
next
  case (6 src tokens cur x2 char cur1 x2a t cur2)
  then show ?case
    by (auto simp: Scanner_advance_def is_at_end_def split: if_splits dest!: scan_keyword_ge)
qed

declare scan_tokens_loop.simps [simp del]

definition scan_tokens :: "string \<Rightarrow> error + token list" where
  "scan_tokens src = scan_tokens_loop src [] 0"

section \<open>The class \<^verbatim>\<open>Parser\<close>\<close>

text \<open>
  The field \<^verbatim>\<open>tokens\<close> is a parameter and the field \<^verbatim>\<open>current\<close> is the state. Both
  \<^verbatim>\<open>advance\<close> and \<^verbatim>\<open>peek\<close> index the token list, which raises \<^verbatim>\<open>IndexError\<close> past its
  end.
\<close>

definition Parser_advance :: "token list \<Rightarrow> nat \<Rightarrow> error + (token \<times> nat)" where
  "Parser_advance tokens cur =
     (if cur < length tokens then Inr (tokens ! cur, cur + 1) else Inl IndexError)"

definition Parser_peek :: "token list \<Rightarrow> nat \<Rightarrow> error + token" where
  "Parser_peek tokens cur =
     (if cur < length tokens then Inr (tokens ! cur) else Inl IndexError)"

definition expect :: "token list \<Rightarrow> nat \<Rightarrow> string \<Rightarrow> string \<Rightarrow> error + (token \<times> nat)" where
  "expect tokens cur token_type error_message =
     (case Parser_peek tokens cur of
        Inl e \<Rightarrow> Inl e
      | Inr t \<Rightarrow>
          if ttype t \<noteq> token_type then Inl (ValueError error_message)
          else Parser_advance tokens cur)"

text \<open>
  \<^verbatim>\<open>obj[key] = value\<close> on a \<^verbatim>\<open>dict\<close>: a key already present keeps its place and gets the new
  value, a new key goes to the end. Keys are compared by equality, as Python compares
  the \<^verbatim>\<open>str\<close> keys that the scanner's \<^verbatim>\<open>STRING\<close> tokens carry.
\<close>

fun dict_setitem :: "(pyval \<times> pyval) list \<Rightarrow> pyval \<Rightarrow> pyval \<Rightarrow> (pyval \<times> pyval) list" where
  "dict_setitem [] k v = [(k, v)]"
| "dict_setitem ((k', v') # d) k v =
     (if k' = k then (k', v) # d else (k', v') # dict_setitem d k v)"

text \<open>
  What follows the \<^verbatim>\<open>while\<close> loop of \<^verbatim>\<open>parse_object\<close> and of \<^verbatim>\<open>parse_array\<close>, reached when
  the loop test fails and from \<^verbatim>\<open>break\<close>.
\<close>

definition parse_object_end :: "token list \<Rightarrow> (pyval \<times> pyval) list \<Rightarrow> nat \<Rightarrow> error + (pyval \<times> nat)" where
  "parse_object_end tokens obj cur =
     (case expect tokens cur TokenType_RIGHT_BRACE ''Expected '}' at end of object'' of
        Inl e \<Rightarrow> Inl e
      | Inr (t, cur') \<Rightarrow> Inr (PDict obj, cur'))"

definition parse_array_end :: "token list \<Rightarrow> pyval list \<Rightarrow> nat \<Rightarrow> error + (pyval \<times> nat)" where
  "parse_array_end tokens arr cur =
     (case expect tokens cur TokenType_RIGHT_BRACKET ''Expected ']' at end of array'' of
        Inl e \<Rightarrow> Inl e
      | Inr (t, cur') \<Rightarrow> Inr (PList arr, cur'))"

lemma Parser_advance_Inr:
  "Parser_advance tokens cur = Inr (t, c) \<longleftrightarrow> cur < length tokens \<and> t = tokens ! cur \<and> c = cur + 1"
  by (auto simp: Parser_advance_def)

lemma Parser_peek_Inr:
  "Parser_peek tokens cur = Inr t \<longleftrightarrow> cur < length tokens \<and> t = tokens ! cur"
  by (auto simp: Parser_peek_def)

lemma expect_Inr:
  "expect tokens cur ty msg = Inr (t, c) \<longleftrightarrow>
     cur < length tokens \<and> t = tokens ! cur \<and> ttype (tokens ! cur) = ty \<and> c = cur + 1"
  by (auto simp: expect_def Parser_peek_def Parser_advance_def)

lemma parse_object_end_Inr:
  "parse_object_end tokens obj cur = Inr (v, c) \<longleftrightarrow>
     cur < length tokens \<and> ttype (tokens ! cur) = TokenType_RIGHT_BRACE \<and> v = PDict obj \<and> c = cur + 1"
  by (auto simp: parse_object_end_def expect_def Parser_peek_def Parser_advance_def
           split: sum.splits)

lemma parse_array_end_Inr:
  "parse_array_end tokens arr cur = Inr (v, c) \<longleftrightarrow>
     cur < length tokens \<and> ttype (tokens ! cur) = TokenType_RIGHT_BRACKET \<and> v = PList arr \<and> c = cur + 1"
  by (auto simp: parse_array_end_def expect_def Parser_peek_def Parser_advance_def
           split: sum.splits)

text \<open>
  The three mutually recursive methods; each \<^verbatim>\<open>while\<close> loop is a function of the
  container built so far and the cursor.
\<close>

function parse_value :: "token list \<Rightarrow> nat \<Rightarrow> error + (pyval \<times> nat)"
  and parse_object :: "token list \<Rightarrow> nat \<Rightarrow> error + (pyval \<times> nat)"
  and parse_object_loop :: "token list \<Rightarrow> (pyval \<times> pyval) list \<Rightarrow> nat \<Rightarrow> error + (pyval \<times> nat)"
  and parse_array :: "token list \<Rightarrow> nat \<Rightarrow> error + (pyval \<times> nat)"
  and parse_array_loop :: "token list \<Rightarrow> pyval list \<Rightarrow> nat \<Rightarrow> error + (pyval \<times> nat)"
where
  "parse_value tokens cur =
     (case Parser_advance tokens cur of
        Inl e \<Rightarrow> Inl e
      | Inr (token, cur1) \<Rightarrow>
          if ttype token \<in> set [TokenType_STRING, TokenType_NUMBER, TokenType_BOOLEAN, TokenType_NULL]
          then Inr (tvalue token, cur1)
          else if ttype token = TokenType_LEFT_BRACE then parse_object tokens cur1
          else if ttype token = TokenType_LEFT_BRACKET then parse_array tokens cur1
          else Inl (ValueError (''Unexpected token: '' @ ttype token)))"
| "parse_object tokens cur = parse_object_loop tokens [] cur"
| "parse_object_loop tokens obj cur =
     (case Parser_peek tokens cur of
        Inl e \<Rightarrow> Inl e
      | Inr t \<Rightarrow>
          if ttype t \<noteq> TokenType_RIGHT_BRACE
          then (case expect tokens cur TokenType_STRING ''Expected string key'' of
                  Inl e \<Rightarrow> Inl e
                | Inr (key, cur1) \<Rightarrow>
                    (case expect tokens cur1 TokenType_COLON ''Expected ':' after key'' of
                       Inl e \<Rightarrow> Inl e
                     | Inr (colon, cur2) \<Rightarrow>
                         (case parse_value tokens cur2 of
                            Inl e \<Rightarrow> Inl e
                          | Inr (v, cur3) \<Rightarrow>
                              (case Parser_peek tokens cur3 of
                                 Inl e \<Rightarrow> Inl e
                               | Inr t' \<Rightarrow>
                                   if ttype t' = TokenType_COMMA
                                   then (case Parser_advance tokens cur3 of
                                           Inl e \<Rightarrow> Inl e
                                         | Inr (comma, cur4) \<Rightarrow>
                                             parse_object_loop tokens
                                               (dict_setitem obj (tvalue key) v) cur4)
                                   else parse_object_end tokens
                                          (dict_setitem obj (tvalue key) v) cur3))))
          else parse_object_end tokens obj cur)"
| "parse_array tokens cur = parse_array_loop tokens [] cur"
| "parse_array_loop tokens arr cur =
     (case Parser_peek tokens cur of
        Inl e \<Rightarrow> Inl e
      | Inr t \<Rightarrow>
          if ttype t \<noteq> TokenType_RIGHT_BRACKET
          then (case parse_value tokens cur of
                  Inl e \<Rightarrow> Inl e
                | Inr (v, cur1) \<Rightarrow>
                    (case Parser_peek tokens cur1 of
                       Inl e \<Rightarrow> Inl e
                     | Inr t' \<Rightarrow>
                         if ttype t' = TokenType_COMMA
                         then (case Parser_advance tokens cur1 of
                                 Inl e \<Rightarrow> Inl e
                               | Inr (comma, cur2) \<Rightarrow>
                                   parse_array_loop tokens (arr @ [v]) cur2)
                         else parse_array_end tokens (arr @ [v]) cur1))
          else parse_array_end tokens arr cur)"
  by pat_completeness auto



text \<open>Termination: a call that returns has moved the cursor forward.\<close>

lemma parse_mono_dom:
  "parse_value_parse_object_parse_object_loop_parse_array_parse_array_loop_dom (Inl (Inl (tokens, cur)))
     \<Longrightarrow> parse_value tokens cur = Inr (v, c') \<Longrightarrow> cur < c'"
  "parse_value_parse_object_parse_object_loop_parse_array_parse_array_loop_dom (Inl (Inr (tokens, cur)))
     \<Longrightarrow> parse_object tokens cur = Inr (v, c') \<Longrightarrow> cur \<le> c'"
  "parse_value_parse_object_parse_object_loop_parse_array_parse_array_loop_dom (Inr (Inl (tokens, obj, cur)))
     \<Longrightarrow> parse_object_loop tokens obj cur = Inr (v, c') \<Longrightarrow> cur \<le> c'"
  "parse_value_parse_object_parse_object_loop_parse_array_parse_array_loop_dom (Inr (Inr (Inl (tokens, cur))))
     \<Longrightarrow> parse_array tokens cur = Inr (v, c') \<Longrightarrow> cur \<le> c'"
  "parse_value_parse_object_parse_object_loop_parse_array_parse_array_loop_dom (Inr (Inr (Inr (tokens, arr, cur))))
     \<Longrightarrow> parse_array_loop tokens arr cur = Inr (v, c') \<Longrightarrow> cur \<le> c'"
proof (induct arbitrary: v c' and v c' and v c' and v c' and v c'
       rule: parse_value_parse_object_parse_object_loop_parse_array_parse_array_loop.pinduct)
  case (1 tokens cur)
  from "1.prems" obtain t where adv: "Parser_advance tokens cur = Inr (t, cur + 1)"
    by (auto simp: parse_value.psimps[OF "1.hyps"(1)] Parser_advance_def split: if_splits)
  show ?case
  proof (cases "ttype t \<in> set [TokenType_STRING, TokenType_NUMBER, TokenType_BOOLEAN, TokenType_NULL]")
    case True
    with "1.prems" adv show ?thesis
      by (simp add: parse_value.psimps[OF "1.hyps"(1)])
  next
    case lit: False
    show ?thesis
    proof (cases "ttype t = TokenType_LEFT_BRACE")
      case True
      with "1.prems" adv lit have "parse_object tokens (cur + 1) = Inr (v, c')"
        by (simp add: parse_value.psimps[OF "1.hyps"(1)])
      from "1.hyps"(2)[OF adv refl lit True this] show ?thesis by simp
    next
      case nb: False
      show ?thesis
      proof (cases "ttype t = TokenType_LEFT_BRACKET")
        case True
        with "1.prems" adv lit nb have "parse_array tokens (cur + 1) = Inr (v, c')"
          by (simp add: parse_value.psimps[OF "1.hyps"(1)])
        from "1.hyps"(3)[OF adv refl lit nb True this] show ?thesis by simp
      next
        case False
        with "1.prems" adv lit nb show ?thesis
          by (simp add: parse_value.psimps[OF "1.hyps"(1)])
      qed
    qed
  qed
next
  case (2 tokens cur)
  then show ?case by (simp add: parse_object.psimps)
next
  case (3 tokens obj cur)
  note ps = parse_object_loop.psimps[OF "3.hyps"(1)]
  from "3.prems" obtain t where pk: "Parser_peek tokens cur = Inr t"
    by (auto simp: ps split: sum.splits)
  show ?case
  proof (cases "ttype t \<noteq> TokenType_RIGHT_BRACE")
    case False
    with "3.prems" pk show ?thesis
      by (simp add: ps parse_object_end_Inr)
  next
    case True
    from "3.prems" pk True obtain key where
      ek: "expect tokens cur TokenType_STRING ''Expected string key'' = Inr (key, cur + 1)"
      by (auto simp: ps expect_Inr split: sum.splits)
    from "3.prems" pk True ek obtain colon where
      ec: "expect tokens (cur + 1) TokenType_COLON ''Expected ':' after key'' = Inr (colon, cur + 2)"
      by (auto simp: ps expect_Inr split: sum.splits)
    from "3.prems" pk True ek ec obtain val c3 where
      pv: "parse_value tokens (cur + 2) = Inr (val, c3)"
      by (auto simp: ps split: sum.splits)
    have c3: "cur + 2 < c3"
      using "3.hyps"(2)[OF pk True ek refl _ refl pv] ec by simp
    from "3.prems" pk True ek ec pv obtain t' where pk': "Parser_peek tokens c3 = Inr t'"
      by (auto simp: ps split: sum.splits)
    show ?thesis
    proof (cases "ttype t' = TokenType_COMMA")
      case False
      with "3.prems" pk True ek ec pv pk' c3 show ?thesis
        by (simp add: ps parse_object_end_Inr)
    next
      case comma: True
      from pk' have adv: "Parser_advance tokens c3 = Inr (t', c3 + 1)"
        by (simp add: Parser_peek_Inr Parser_advance_Inr)
      from "3.prems" pk True ek ec pv pk' comma adv
      have "parse_object_loop tokens (dict_setitem obj (tvalue key) val) (c3 + 1) = Inr (v, c')"
        by (simp add: ps)
      from "3.hyps"(3)[OF pk True ek refl _ refl pv refl pk' comma adv refl this] ec c3
      show ?thesis by simp
    qed
  qed
next
  case (4 tokens cur)
  then show ?case by (simp add: parse_array.psimps)
next
  case (5 tokens arr cur)
  note ps = parse_array_loop.psimps[OF "5.hyps"(1)]
  from "5.prems" obtain t where pk: "Parser_peek tokens cur = Inr t"
    by (auto simp: ps split: sum.splits)
  show ?case
  proof (cases "ttype t \<noteq> TokenType_RIGHT_BRACKET")
    case False
    with "5.prems" pk show ?thesis
      by (simp add: ps parse_array_end_Inr)
  next
    case True
    from "5.prems" pk True obtain val c1 where
      pv: "parse_value tokens cur = Inr (val, c1)"
      by (auto simp: ps split: sum.splits)
    have c1: "cur < c1"
      using "5.hyps"(2)[OF pk True pv] by simp
    from "5.prems" pk True pv obtain t' where pk': "Parser_peek tokens c1 = Inr t'"
      by (auto simp: ps split: sum.splits)
    show ?thesis
    proof (cases "ttype t' = TokenType_COMMA")
      case False
      with "5.prems" pk True pv pk' c1 show ?thesis
        by (simp add: ps parse_array_end_Inr)
    next
      case comma: True
      from pk' have adv: "Parser_advance tokens c1 = Inr (t', c1 + 1)"
        by (simp add: Parser_peek_Inr Parser_advance_Inr)
      from "5.prems" pk True pv pk' comma adv
      have "parse_array_loop tokens (arr @ [val]) (c1 + 1) = Inr (v, c')"
        by (simp add: ps)
      from "5.hyps"(3)[OF pk True pv refl pk' comma adv refl this] c1
      show ?thesis by simp
    qed
  qed
qed


termination parse_value
proof (relation "measure (\<lambda>x. case x of
         Inl (Inl (tokens, cur)) \<Rightarrow> 3 * (length tokens - cur)
       | Inl (Inr (tokens, cur)) \<Rightarrow> 3 * (length tokens - cur) + 2
       | Inr (Inl (tokens, obj, cur)) \<Rightarrow> 3 * (length tokens - cur) + 1
       | Inr (Inr (Inl (tokens, cur))) \<Rightarrow> 3 * (length tokens - cur) + 2
       | Inr (Inr (Inr (tokens, arr, cur))) \<Rightarrow> 3 * (length tokens - cur) + 1)", goal_cases)
  case 1
  show ?case by simp
next
  case 2
  then show ?case by (auto simp: Parser_advance_Inr)
next
  case 3
  then show ?case by (auto simp: Parser_advance_Inr)
next
  case 4
  show ?case by simp
next
  case 5
  then show ?case by (auto simp: expect_Inr)
next
  case 6
  then show ?case
    by (auto simp: expect_Inr Parser_peek_Inr Parser_advance_Inr dest!: parse_mono_dom(1))
next
  case 7
  show ?case by simp
next
  case 8
  then show ?case by simp
next
  case 9
  then show ?case
    by (auto simp: Parser_peek_Inr Parser_advance_Inr dest!: parse_mono_dom(1))
qed


declare parse_value.simps [simp del] parse_object.simps [simp del]
  parse_object_loop.simps [simp del] parse_array.simps [simp del]
  parse_array_loop.simps [simp del]

definition parse :: "token list \<Rightarrow> error + pyval" where
  "parse tokens =
     (case parse_value tokens 0 of Inl e \<Rightarrow> Inl e | Inr (v, cur) \<Rightarrow> Inr v)"

section \<open>The function \<^verbatim>\<open>parse_json\<close>\<close>

definition parse_json :: "string \<Rightarrow> error + pyval" where
  "parse_json json_str =
     (case scan_tokens json_str of
        Inl e \<Rightarrow> Inl e
      | Inr tokens \<Rightarrow> parse tokens)"

section \<open>Inputs: the tokens of an object\<close>

text \<open>
  An object with the entries \<open>es\<close> is written as the entries in order, separated by commas:
  each entry is its key as a \<^verbatim>\<open>STRING\<close> token, a colon token and the tokens of its value.
  An entry is given as the key, the tokens of the value and the value.
\<close>

fun entries_tokens :: "(string \<times> token list \<times> pyval) list \<Rightarrow> token list" where
  "entries_tokens [] = []"
| "entries_tokens [(k, toks, v)] =
     Token TokenType_STRING (PStr k) # Token TokenType_COLON (PStr '':'') # toks"
| "entries_tokens ((k, toks, v) # e # es) =
     Token TokenType_STRING (PStr k) # Token TokenType_COLON (PStr '':'') # toks
     @ Token TokenType_COMMA (PStr '','') # entries_tokens (e # es)"

section \<open>What the scanner computes\<close>

text \<open>One round of the main loop, and the three token scanners without their loops.\<close>

lemma scan_tokens_loop_step:
  "cur < length src \<Longrightarrow>
   scan_tokens_loop src tokens cur =
     (if src ! cur \<in> set whitespace then scan_tokens_loop src tokens (cur + 1)
      else if src ! cur \<in> set ''{}[],:''
      then scan_tokens_loop src (tokens @ [Token [src ! cur] (PStr [src ! cur])]) (cur + 1)
      else if src ! cur = dquote
      then (case scan_string src (cur + 1) of
              Inl e \<Rightarrow> Inl e
            | Inr (t, cur2) \<Rightarrow> scan_tokens_loop src (tokens @ [t]) cur2)
      else if isdigit (src ! cur) \<or> src ! cur = CHR ''-''
      then (case scan_number src (src ! cur) (cur + 1) of
              Inl e \<Rightarrow> Inl e
            | Inr (t, cur2) \<Rightarrow> scan_tokens_loop src (tokens @ [t]) cur2)
      else if isalpha (src ! cur)
      then (case scan_keyword src (src ! cur) (cur + 1) of
              Inl e \<Rightarrow> Inl e
            | Inr (t, cur2) \<Rightarrow> scan_tokens_loop src (tokens @ [t]) cur2)
      else Inl (ValueError (''Unexpected character: '' @ [src ! cur])))"
  by (subst scan_tokens_loop.simps) (simp add: is_at_end_def Scanner_advance_def)

lemma scan_tokens_loop_end:
  "length src \<le> cur \<Longrightarrow>
   scan_tokens_loop src tokens cur = Inr (tokens @ [Token TokenType_EOF PNone])"
  by (subst scan_tokens_loop.simps) (simp add: is_at_end_def)

lemma scan_string_eq:
  "scan_string src cur =
     (if length src \<le> cur + length (takeWhile (\<lambda>c. c \<noteq> dquote) (drop cur src))
      then Inl (ValueError ''Unterminated string'')
      else Inr (Token TokenType_STRING (PStr (takeWhile (\<lambda>c. c \<noteq> dquote) (drop cur src))),
                cur + length (takeWhile (\<lambda>c. c \<noteq> dquote) (drop cur src)) + 1))"
  by (simp add: scan_string_def scan_string_loop_eq is_at_end_def Scanner_advance_def
        slice_def takeWhile_eq_take[symmetric])

lemma scan_number_eq:
  "scan_number src first_char cur =
     (case (if CHR ''.'' \<in> set (first_char # takeWhile (\<lambda>c. isdigit c \<or> c = CHR ''.'') (drop cur src))
            then map_sum id PFloat
                   (py_float (first_char # takeWhile (\<lambda>c. isdigit c \<or> c = CHR ''.'') (drop cur src)))
            else map_sum id PInt
                   (py_int (first_char # takeWhile (\<lambda>c. isdigit c \<or> c = CHR ''.'') (drop cur src)))) of
        Inl e \<Rightarrow> Inl e
      | Inr v \<Rightarrow>
          Inr (Token TokenType_NUMBER v,
               cur + length (takeWhile (\<lambda>c. isdigit c \<or> c = CHR ''.'') (drop cur src))))"
  by (simp add: scan_number_def scan_number_loop_eq split: sum.splits)

lemma scan_keyword_eq:
  "scan_keyword src first_char cur =
     (if first_char # takeWhile isalpha (drop cur src) = ''true''
      then Inr (Token TokenType_BOOLEAN (PBool True), cur + length (takeWhile isalpha (drop cur src)))
      else if first_char # takeWhile isalpha (drop cur src) = ''false''
      then Inr (Token TokenType_BOOLEAN (PBool False), cur + length (takeWhile isalpha (drop cur src)))
      else if first_char # takeWhile isalpha (drop cur src) = ''null''
      then Inr (Token TokenType_NULL PNone, cur + length (takeWhile isalpha (drop cur src)))
      else Inl (ValueError (''Unexpected keyword: '' @ first_char # takeWhile isalpha (drop cur src))))"
  by (simp add: scan_keyword_def scan_keyword_loop_eq)

section \<open>Lexical errors and keywords\<close>

text \<open>The tests of the main loop exclude one another on the characters that matter.\<close>

lemma dquote_class:
  "dquote \<notin> set whitespace" "dquote \<notin> set ''{}[],:''"
  by (simp_all add: dquote_def whitespace_def)

lemma isalpha_class:
  assumes "isalpha c"
  shows "c \<notin> set whitespace" "c \<notin> set ''{}[],:''" "c \<noteq> dquote" "\<not> isdigit c" "c \<noteq> CHR ''-''"
  using assms by (auto simp: isalpha_def isdigit_def whitespace_def dquote_def Let_def)

lemma number_start_class:
  assumes "isdigit c \<or> c = CHR ''-''"
  shows "c \<notin> set whitespace" "c \<notin> set ''{}[],:''" "c \<noteq> dquote"
  using assms by (auto simp: isdigit_def whitespace_def dquote_def Let_def)

text \<open>
  Claim C8. When the main loop reads a double quote and no double quote follows it in
  the rest of the source, \<^verbatim>\<open>scan_tokens\<close> raises \<^verbatim>\<open>ValueError("Unterminated string")\<close>,
  whatever tokens it had collected: the scan returns no token list. In particular an
  input that is a double quote followed by text without a double quote, such as
  \<^verbatim>\<open>"abc\<close>, makes \<^verbatim>\<open>scan_tokens\<close> and so \<^verbatim>\<open>parse_json\<close> raise that error. The spec's
  \<^verbatim>\<open>LexError\<close> is a \<^verbatim>\<open>ValueError\<close> raised by the scanner.
\<close>

theorem unterminated_string_raises:
  "(\<forall>src tokens cur.
      cur < length src \<and> src ! cur = dquote \<and> dquote \<notin> set (drop (cur + 1) src)
      \<longrightarrow> scan_tokens_loop src tokens cur = Inl (ValueError ''Unterminated string''))
   \<and> (\<forall>rest. dquote \<notin> set rest
      \<longrightarrow> scan_tokens (dquote # rest) = Inl (ValueError ''Unterminated string'')
        \<and> parse_json (dquote # rest) = Inl (ValueError ''Unterminated string''))"
proof -
  have loop: "scan_tokens_loop src tokens cur = Inl (ValueError ''Unterminated string'')"
    if "cur < length src" "src ! cur = dquote" "dquote \<notin> set (drop (cur + 1) src)"
    for src tokens cur
  proof -
    have "takeWhile (\<lambda>c. c \<noteq> dquote) (drop (cur + 1) src) = drop (cur + 1) src"
      using that(3) by (intro takeWhile_eq_all_conv[THEN iffD2]) auto
    then have "length (takeWhile (\<lambda>c. c \<noteq> dquote) (drop (cur + 1) src)) = length src - (cur + 1)"
      by (simp only: length_drop)
    then have "scan_string src (cur + 1) = Inl (ValueError ''Unterminated string'')"
      using that(1) by (simp only: scan_string_eq) simp
    then show ?thesis
      using that(1,2) by (simp only: scan_tokens_loop_step) (simp add: dquote_def whitespace_def)
  qed
  have whole: "scan_tokens (dquote # rest) = Inl (ValueError ''Unterminated string'')"
    if "dquote \<notin> set rest" for rest
    using loop[of 0 "dquote # rest" "[]"] that by (simp add: scan_tokens_def)
  show ?thesis
    using loop whole by (simp add: parse_json_def)
qed

theorem unterminated_string_raises_witness:
  "parse_json (dquote # ''abc'') = Inl (ValueError ''Unterminated string'')"
  using unterminated_string_raises by (simp add: dquote_def)

text \<open>
  Claim C9. When the main loop stands at the start of a run \<open>word\<close> of alphabetic
  characters that ends at a character that is not alphabetic or at the end of the
  source, it takes the whole run as one word: \<^verbatim>\<open>true\<close> appends a \<^verbatim>\<open>BOOLEAN\<close> token with
  value \<^verbatim>\<open>True\<close>, \<^verbatim>\<open>false\<close> one with value \<^verbatim>\<open>False\<close>, \<^verbatim>\<open>null\<close> a \<^verbatim>\<open>NULL\<close> token, and the
  scan goes on after the run; every other word makes the scan raise
  \<^verbatim>\<open>ValueError("Unexpected keyword: word")\<close>.
\<close>

theorem keyword_run:
  "\<forall>pre word post tokens.
      word \<noteq> [] \<and> list_all isalpha word \<and> takeWhile isalpha post = []
      \<longrightarrow> scan_tokens_loop (pre @ word @ post) tokens (length pre) =
           (if word = ''true''
            then scan_tokens_loop (pre @ word @ post)
                   (tokens @ [Token TokenType_BOOLEAN (PBool True)]) (length pre + length word)
            else if word = ''false''
            then scan_tokens_loop (pre @ word @ post)
                   (tokens @ [Token TokenType_BOOLEAN (PBool False)]) (length pre + length word)
            else if word = ''null''
            then scan_tokens_loop (pre @ word @ post)
                   (tokens @ [Token TokenType_NULL PNone]) (length pre + length word)
            else Inl (ValueError (''Unexpected keyword: '' @ word)))"
proof (intro allI impI, elim conjE)
  fix pre word post :: string and tokens :: "token list"
  assume ne: "word \<noteq> []" and al: "list_all isalpha word" and stop: "takeWhile isalpha post = []"
  let ?src = "pre @ word @ post"
  obtain c cs where w: "word = c # cs" using ne by (cases word) auto
  have c: "isalpha c" and cs: "list_all isalpha cs" using al w by simp_all
  have at: "?src ! length pre = c" and lt: "length pre < length ?src"
    using w by simp_all
  have dr: "drop (length pre + 1) ?src = cs @ post" using w by simp
  have run: "takeWhile isalpha (cs @ post) = cs"
    using cs stop by (simp add: takeWhile_append list_all_iff)
  have step: "scan_tokens_loop ?src tokens (length pre) =
      (case scan_keyword ?src c (length pre + 1) of
         Inl e \<Rightarrow> Inl e
       | Inr (t, cur2) \<Rightarrow> scan_tokens_loop ?src (tokens @ [t]) cur2)"
    unfolding scan_tokens_loop_step[OF lt] at using isalpha_class[OF c] c by simp
  have kw: "scan_keyword ?src c (length pre + 1) =
      (if word = ''true''
       then Inr (Token TokenType_BOOLEAN (PBool True), length pre + length word)
       else if word = ''false''
       then Inr (Token TokenType_BOOLEAN (PBool False), length pre + length word)
       else if word = ''null''
       then Inr (Token TokenType_NULL PNone, length pre + length word)
       else Inl (ValueError (''Unexpected keyword: '' @ word)))"
    unfolding scan_keyword_eq dr run by (simp add: w)
  show "scan_tokens_loop ?src tokens (length pre) =
           (if word = ''true''
            then scan_tokens_loop ?src
                   (tokens @ [Token TokenType_BOOLEAN (PBool True)]) (length pre + length word)
            else if word = ''false''
            then scan_tokens_loop ?src
                   (tokens @ [Token TokenType_BOOLEAN (PBool False)]) (length pre + length word)
            else if word = ''null''
            then scan_tokens_loop ?src
                   (tokens @ [Token TokenType_NULL PNone]) (length pre + length word)
            else Inl (ValueError (''Unexpected keyword: '' @ word)))"
    unfolding step kw by simp
qed

theorem keyword_run_witness:
  "scan_tokens ''true'' = Inr [Token TokenType_BOOLEAN (PBool True), Token TokenType_EOF PNone]
   \<and> scan_tokens ''false'' = Inr [Token TokenType_BOOLEAN (PBool False), Token TokenType_EOF PNone]
   \<and> scan_tokens ''null'' = Inr [Token TokenType_NULL PNone, Token TokenType_EOF PNone]
   \<and> scan_tokens ''tru'' = Inl (ValueError ''Unexpected keyword: tru'')
   \<and> scan_tokens ''True'' = Inl (ValueError ''Unexpected keyword: True'')
   \<and> scan_tokens ''nullx'' = Inl (ValueError ''Unexpected keyword: nullx'')"
  using keyword_run[rule_format, of "''true''" "[]" "[]" "[]"]
    keyword_run[rule_format, of "''false''" "[]" "[]" "[]"]
    keyword_run[rule_format, of "''null''" "[]" "[]" "[]"]
    keyword_run[rule_format, of "''tru''" "[]" "[]" "[]"]
    keyword_run[rule_format, of "''True''" "[]" "[]" "[]"]
    keyword_run[rule_format, of "''nullx''" "[]" "[]" "[]"]
  by (simp add: scan_tokens_def isalpha_def scan_tokens_loop_end)

section \<open>Numbers\<close>

lemma scan_tokens_loop_number:
  "cur < length src \<Longrightarrow> isdigit (src ! cur) \<or> src ! cur = CHR ''-'' \<Longrightarrow>
   scan_tokens_loop src tokens cur =
     (case scan_number src (src ! cur) (cur + 1) of
        Inl e \<Rightarrow> Inl e
      | Inr (t, cur2) \<Rightarrow> scan_tokens_loop src (tokens @ [t]) cur2)"
  using number_start_class[of "src ! cur"]
  by (simp only: scan_tokens_loop_step) simp

text \<open>
  Claim C5. From a first character and the cursor after it, \<^verbatim>\<open>scan_number\<close> captures that
  character and the longest run of digits and decimal points that follows. If the
  captured text holds a decimal point the token's value is \<^verbatim>\<open>float\<close> of the text, otherwise
  it is \<^verbatim>\<open>int\<close> of the text, and an error of either conversion is the error of the scan:
  a token it returns is a \<^verbatim>\<open>NUMBER\<close> whose value is a float exactly when the text holds a
  decimal point and an integer exactly when it holds none. The main loop calls it on a
  digit and on \<^verbatim>\<open>-\<close>. So \<^verbatim>\<open>parse_json("3.14")\<close> is the float
  read from the decimal 3.14, \<^verbatim>\<open>parse_json("42")\<close> is the integer 42 and
  \<^verbatim>\<open>parse_json("-5")\<close> is the integer -5.
\<close>

theorem number_scanning:
  "(\<forall>src first_char cur.
      scan_number src first_char cur =
        (let run = takeWhile (\<lambda>c. isdigit c \<or> c = CHR ''.'') (drop cur src);
             text = first_char # run
         in case (if CHR ''.'' \<in> set text then map_sum id PFloat (py_float text)
                  else map_sum id PInt (py_int text)) of
              Inl e \<Rightarrow> Inl e
            | Inr v \<Rightarrow> Inr (Token TokenType_NUMBER v, cur + length run)))
   \<and> (\<forall>src first_char cur tok cur'.
        scan_number src first_char cur = Inr (tok, cur')
        \<longrightarrow> ttype tok = TokenType_NUMBER
          \<and> ((\<exists>f. tvalue tok = PFloat f) \<longleftrightarrow>
               CHR ''.'' \<in> set (first_char # takeWhile (\<lambda>c. isdigit c \<or> c = CHR ''.'') (drop cur src)))
          \<and> ((\<exists>i. tvalue tok = PInt i) \<longleftrightarrow>
               CHR ''.'' \<notin> set (first_char # takeWhile (\<lambda>c. isdigit c \<or> c = CHR ''.'') (drop cur src))))
   \<and> (\<forall>src tokens cur.
        cur < length src \<and> (isdigit (src ! cur) \<or> src ! cur = CHR ''-'')
        \<longrightarrow> scan_tokens_loop src tokens cur =
             (case scan_number src (src ! cur) (cur + 1) of
                Inl e \<Rightarrow> Inl e
              | Inr (t, cur2) \<Rightarrow> scan_tokens_loop src (tokens @ [t]) cur2))
   \<and> parse_json ''3.14'' = Inr (PFloat (Float_of_decimal False 314 2))
   \<and> decimal_value (Float_of_decimal False 314 2) = 314 / 100
   \<and> parse_json ''42'' = Inr (PInt 42)
   \<and> parse_json ''-5'' = Inr (PInt (- 5))"
proof -
  have a: "parse_json ''3.14'' = Inr (PFloat (Float_of_decimal False 314 2))" by code_simp
  have b: "decimal_value (Float_of_decimal False 314 2) = 314 / 100"
    by (simp add: decimal_value_def)
  have c: "parse_json ''42'' = Inr (PInt 42)" by code_simp
  have d: "parse_json ''-5'' = Inr (PInt (- 5))" by code_simp
  have e: "ttype tok = TokenType_NUMBER
      \<and> ((\<exists>f. tvalue tok = PFloat f) \<longleftrightarrow>
           CHR ''.'' \<in> set (first_char # takeWhile (\<lambda>c. isdigit c \<or> c = CHR ''.'') (drop cur src)))
      \<and> ((\<exists>i. tvalue tok = PInt i) \<longleftrightarrow>
           CHR ''.'' \<notin> set (first_char # takeWhile (\<lambda>c. isdigit c \<or> c = CHR ''.'') (drop cur src)))"
    if "scan_number src first_char cur = Inr (tok, cur')" for src first_char cur tok cur'
    using that unfolding scan_number_eq
    by (cases "CHR ''.'' \<in> set (first_char # takeWhile (\<lambda>c. isdigit c \<or> c = CHR ''.'') (drop cur src))")
       (auto split: sum.splits if_splits simp: map_sum_def)
  have f: "scan_number src first_char cur =
        (let run = takeWhile (\<lambda>c. isdigit c \<or> c = CHR ''.'') (drop cur src);
             text = first_char # run
         in case (if CHR ''.'' \<in> set text then map_sum id PFloat (py_float text)
                  else map_sum id PInt (py_int text)) of
              Inl e \<Rightarrow> Inl e
            | Inr v \<Rightarrow> Inr (Token TokenType_NUMBER v, cur + length run))"
    for src first_char cur
    unfolding Let_def by (rule scan_number_eq)
  show ?thesis
    using a b c d e f scan_tokens_loop_number by blast
qed

theorem number_scanning_witness:
  "scan_tokens ''-5'' = Inr [Token TokenType_NUMBER (PInt (- 5)), Token TokenType_EOF PNone]
   \<and> scan_tokens ''1.5'' =
       Inr [Token TokenType_NUMBER (PFloat (Float_of_decimal False 15 1)), Token TokenType_EOF PNone]"
  using number_scanning[THEN conjunct2, THEN conjunct2, THEN conjunct1, rule_format, of 0 "''-5''" "[]"]
    number_scanning[THEN conjunct2, THEN conjunct2, THEN conjunct1, rule_format, of 0 "''1.5''" "[]"]
  by (simp add: scan_tokens_def number_scanning[THEN conjunct1, rule_format] isdigit_def
        py_int_def py_float_def split_sign_def isdecimal_def decimal_of_def digit_value_def
        scan_tokens_loop_end)

lemma not_isdecimal_dot: "\<not> isdecimal (CHR ''.'')"
  by (simp add: isdecimal_def)

lemma py_int_no_decimal:
  "list_all (\<lambda>c. \<not> isdecimal c) run \<Longrightarrow>
   py_int (CHR ''-'' # run) =
     Inl (ValueError (''invalid literal for int() with base 10: '' @ repr (CHR ''-'' # run)))"
  by (cases run) (auto simp: py_int_def split_sign_def)

lemma py_float_no_decimal:
  assumes "list_all (\<lambda>c. \<not> isdecimal c) run"
  shows "py_float (CHR ''-'' # run) =
     Inl (ValueError (''could not convert string to float: '' @ repr (CHR ''-'' # run)))"
proof -
  let ?ip = "takeWhile (\<lambda>c. c \<noteq> CHR ''.'') run"
  let ?fp = "drop 1 (dropWhile (\<lambda>c. c \<noteq> CHR ''.'') run)"
  have sub: "set (?ip @ ?fp) \<subseteq> set run"
    using set_takeWhileD[of _ "\<lambda>c. c \<noteq> CHR ''.''" run]
      set_dropWhileD[of _ "\<lambda>c. c \<noteq> CHR ''.''" run]
      in_set_dropD[of _ 1 "dropWhile (\<lambda>c. c \<noteq> CHR ''.'') run"]
    by auto
  have "\<not> (list_all isdecimal ?ip \<and> list_all isdecimal ?fp \<and> ?ip @ ?fp \<noteq> [])"
  proof
    assume h: "list_all isdecimal ?ip \<and> list_all isdecimal ?fp \<and> ?ip @ ?fp \<noteq> []"
    then have "hd (?ip @ ?fp) \<in> set (?ip @ ?fp)" by (intro hd_in_set) blast
    then obtain c where c: "c \<in> set (?ip @ ?fp)" ..
    with h have "isdecimal c" by (auto simp: list_all_iff)
    moreover from c sub assms have "\<not> isdecimal c" by (auto simp: list_all_iff)
    ultimately show False by simp
  qed
  then show ?thesis
    by (simp add: py_float_def split_sign_def Let_def)
qed

lemma py_float_two_dots:
  assumes "2 \<le> length (filter (\<lambda>c. c = CHR ''.'') text)"
  shows "py_float text =
     Inl (ValueError (''could not convert string to float: '' @ repr text))"
proof -
  obtain neg body where sp: "split_sign text = (neg, body)" by (cases "split_sign text")
  have body: "2 \<le> length (filter (\<lambda>c. c = CHR ''.'') body)"
    using assms sp by (cases "text") (auto simp: split_sign_def split: if_splits)
  let ?nd = "\<lambda>c. c \<noteq> CHR ''.''"
  have "filter (\<lambda>c. c = CHR ''.'') (takeWhile ?nd body) = []"
    by (auto simp: filter_empty_conv dest: set_takeWhileD)
  then have cnt: "filter (\<lambda>c. c = CHR ''.'') body = filter (\<lambda>c. c = CHR ''.'') (dropWhile ?nd body)"
    by (metis takeWhile_dropWhile_id filter_append append_Nil)
  obtain rest where dw: "dropWhile ?nd body = CHR ''.'' # rest"
  proof (cases "dropWhile ?nd body")
    case Nil
    with cnt body show ?thesis by simp
  next
    case (Cons x xs)
    then have "x = CHR ''.''" using hd_dropWhile[of ?nd body] by auto
    with Cons that show ?thesis by simp
  qed
  have "1 \<le> length (filter (\<lambda>c. c = CHR ''.'') rest)"
    using body cnt dw by simp
  then have "filter (\<lambda>c. c = CHR ''.'') rest \<noteq> []" by auto
  then have "CHR ''.'' \<in> set rest"
    by (simp only: filter_empty_conv) auto
  then have "\<not> list_all isdecimal (drop 1 (dropWhile ?nd body))"
    using dw not_isdecimal_dot by (auto simp: list_all_iff)
  then show ?thesis
    using sp by (simp add: py_float_def Let_def)
qed

text \<open>
  Claim C10. \<^verbatim>\<open>scan_number\<close> checks nothing itself and hands the captured text to \<^verbatim>\<open>int\<close>
  or \<^verbatim>\<open>float\<close>. When the first character is \<^verbatim>\<open>-\<close> and the run captured after it holds no
  decimal digit, the conversion raises \<^verbatim>\<open>ValueError\<close>; when the captured text holds two
  or more decimal points, \<^verbatim>\<open>float\<close> raises \<^verbatim>\<open>ValueError\<close>. Either way \<^verbatim>\<open>scan_number\<close>
  returns no token, and an error of \<^verbatim>\<open>scan_number\<close> in the main loop is the error of
  the whole scan.
\<close>

theorem number_text_not_validated:
  "(\<forall>src cur.
      list_all (\<lambda>c. \<not> isdecimal c) (takeWhile (\<lambda>c. isdigit c \<or> c = CHR ''.'') (drop cur src))
      \<longrightarrow> scan_number src (CHR ''-'') cur =
           (let text = CHR ''-'' # takeWhile (\<lambda>c. isdigit c \<or> c = CHR ''.'') (drop cur src)
            in Inl (ValueError
                 ((if CHR ''.'' \<in> set text then ''could not convert string to float: ''
                   else ''invalid literal for int() with base 10: '') @ repr text))))
   \<and> (\<forall>src first_char cur.
      2 \<le> length (filter (\<lambda>c. c = CHR ''.'')
             (first_char # takeWhile (\<lambda>c. isdigit c \<or> c = CHR ''.'') (drop cur src)))
      \<longrightarrow> scan_number src first_char cur =
           Inl (ValueError (''could not convert string to float: '' @
                  repr (first_char # takeWhile (\<lambda>c. isdigit c \<or> c = CHR ''.'') (drop cur src)))))
   \<and> (\<forall>src tokens cur e.
      cur < length src \<and> (isdigit (src ! cur) \<or> src ! cur = CHR ''-'')
      \<and> scan_number src (src ! cur) (cur + 1) = Inl e
      \<longrightarrow> scan_tokens_loop src tokens cur = Inl e)"
proof (intro conjI allI impI)
  fix src cur
  let ?run = "takeWhile (\<lambda>c. isdigit c \<or> c = CHR ''.'') (drop cur src)"
  assume nd: "list_all (\<lambda>c. \<not> isdecimal c) ?run"
  show "scan_number src (CHR ''-'') cur =
           (let text = CHR ''-'' # ?run
            in Inl (ValueError
                 ((if CHR ''.'' \<in> set text then ''could not convert string to float: ''
                   else ''invalid literal for int() with base 10: '') @ repr text)))"
    unfolding scan_number_eq Let_def
    by (simp add: py_int_no_decimal[OF nd] py_float_no_decimal[OF nd])
next
  fix src first_char cur
  let ?text = "first_char # takeWhile (\<lambda>c. isdigit c \<or> c = CHR ''.'') (drop cur src)"
  assume two: "2 \<le> length (filter (\<lambda>c. c = CHR ''.'') ?text)"
  then have "filter (\<lambda>c. c = CHR ''.'') ?text \<noteq> []" by auto
  then have dot: "CHR ''.'' \<in> set ?text"
    by (simp only: filter_empty_conv) auto
  show "scan_number src first_char cur =
          Inl (ValueError (''could not convert string to float: '' @ repr ?text))"
    unfolding scan_number_eq using dot py_float_two_dots[OF two] by simp
next
  fix src tokens cur e
  assume "cur < length src \<and> (isdigit (src ! cur) \<or> src ! cur = CHR ''-'')
      \<and> scan_number src (src ! cur) (cur + 1) = Inl e"
  then show "scan_tokens_loop src tokens cur = Inl e"
    using scan_tokens_loop_number[of cur src tokens] by simp
qed

theorem number_text_not_validated_witness:
  "parse_json ''-'' = Inl (ValueError (''invalid literal for int() with base 10: '' @ repr ''-''))
   \<and> parse_json ''-.'' = Inl (ValueError (''could not convert string to float: '' @ repr ''-.''))
   \<and> parse_json ''1.2.3'' =
       Inl (ValueError (''could not convert string to float: '' @ repr ''1.2.3''))"
proof -
  have a: "scan_number ''-'' (CHR ''-'') (0 + 1) =
      Inl (ValueError (''invalid literal for int() with base 10: '' @ repr ''-''))"
    using number_text_not_validated[THEN conjunct1, rule_format, of "0 + 1" "''-''"] by simp
  have b: "scan_number ''-.'' (CHR ''-'') (0 + 1) =
      Inl (ValueError (''could not convert string to float: '' @ repr ''-.''))"
    using number_text_not_validated[THEN conjunct1, rule_format, of "0 + 1" "''-.''"]
    by (simp add: isdecimal_def)
  have c: "scan_number ''1.2.3'' (CHR ''1'') (0 + 1) =
      Inl (ValueError (''could not convert string to float: '' @ repr ''1.2.3''))"
    using number_text_not_validated[THEN conjunct2, THEN conjunct1, rule_format,
        of "CHR ''1''" "0 + 1" "''1.2.3''"]
    by (simp add: isdigit_def)
  note loop = number_text_not_validated[THEN conjunct2, THEN conjunct2, rule_format]
  have "scan_tokens ''-'' = Inl (ValueError (''invalid literal for int() with base 10: '' @ repr ''-''))"
    unfolding scan_tokens_def using a by (intro loop) simp
  moreover have "scan_tokens ''-.'' = Inl (ValueError (''could not convert string to float: '' @ repr ''-.''))"
    unfolding scan_tokens_def using b by (intro loop) simp
  moreover have "scan_tokens ''1.2.3'' =
      Inl (ValueError (''could not convert string to float: '' @ repr ''1.2.3''))"
    unfolding scan_tokens_def using c by (intro loop) (simp add: isdigit_def)
  ultimately show ?thesis by (simp add: parse_json_def)
qed

section \<open>Strings\<close>

lemma scan_string_between:
  assumes "dquote \<notin> set body"
  shows "scan_string (pre @ [dquote] @ body @ [dquote] @ post) (length pre + 1) =
           Inr (Token TokenType_STRING (PStr body), length pre + length body + 2)"
proof -
  let ?src = "pre @ [dquote] @ body @ [dquote] @ post"
  have dr: "drop (length pre + 1) ?src = body @ dquote # post" by simp
  have tw: "takeWhile (\<lambda>c. c \<noteq> dquote) (body @ dquote # post) = body"
    using assms by (induct body) auto
  show ?thesis
    unfolding scan_string_eq dr tw by simp
qed

text \<open>
  Claim C2, as amended. The scanner has no notion of an escaped quote: from the
  character after an opening double quote it takes every character as it stands up to
  the next double quote, whether or not a backslash precedes that quote. The
  \<^verbatim>\<open>STRING\<close> token's value is the text strictly between the two quotes, and the scan goes
  on after the closing quote.
\<close>

theorem string_ends_at_next_quote:
  "(\<forall>pre body post.
      dquote \<notin> set body
      \<longrightarrow> scan_string (pre @ [dquote] @ body @ [dquote] @ post) (length pre + 1) =
           Inr (Token TokenType_STRING (PStr body), length pre + length body + 2))
   \<and> (\<forall>pre body post tokens.
      dquote \<notin> set body
      \<longrightarrow> scan_tokens_loop (pre @ [dquote] @ body @ [dquote] @ post) tokens (length pre) =
           scan_tokens_loop (pre @ [dquote] @ body @ [dquote] @ post)
             (tokens @ [Token TokenType_STRING (PStr body)]) (length pre + length body + 2))"
proof (intro conjI allI impI)
  fix pre body post
  assume "dquote \<notin> set body"
  then show "scan_string (pre @ [dquote] @ body @ [dquote] @ post) (length pre + 1) =
           Inr (Token TokenType_STRING (PStr body), length pre + length body + 2)"
    by (rule scan_string_between)
next
  fix pre body post tokens
  assume nq: "dquote \<notin> set body"
  let ?src = "pre @ [dquote] @ body @ [dquote] @ post"
  have lt: "length pre < length ?src" and at: "?src ! length pre = dquote" by simp_all
  show "scan_tokens_loop ?src tokens (length pre) =
           scan_tokens_loop ?src
             (tokens @ [Token TokenType_STRING (PStr body)]) (length pre + length body + 2)"
    unfolding scan_tokens_loop_step[OF lt] at scan_string_between[OF nq]
    using dquote_class by simp
qed

theorem string_ends_at_next_quote_witness:
  "scan_tokens [dquote, CHR ''a'', backslash, dquote] =
     Inr [Token TokenType_STRING (PStr [CHR ''a'', backslash]), Token TokenType_EOF PNone]"
  using string_ends_at_next_quote[THEN conjunct2, rule_format,
      of "[CHR ''a'', backslash]" "[]" "[]" "[]"]
  by (simp add: scan_tokens_def dquote_def backslash_def scan_tokens_loop_end)

text \<open>
  The claim as stated fails on the six characters \<^verbatim>\<open>"a\"b"\<close>: the quote after the backslash
  ends the string, whose value is \<^verbatim>\<open>a\\<close> and not \<^verbatim>\<open>a\"b\<close>, and the scan then raises on the
  word \<^verbatim>\<open>b\<close>.
\<close>

theorem escaped_quote_ends_string:
  "scan_string [dquote, CHR ''a'', backslash, dquote, CHR ''b'', dquote] 1 =
     Inr (Token TokenType_STRING (PStr [CHR ''a'', backslash]), 4)
   \<and> scan_string [dquote, CHR ''a'', backslash, dquote, CHR ''b'', dquote] 1 \<noteq>
     Inr (Token TokenType_STRING (PStr [CHR ''a'', backslash, dquote, CHR ''b'']), 6)
   \<and> scan_tokens [dquote, CHR ''a'', backslash, dquote, CHR ''b'', dquote] =
     Inl (ValueError ''Unexpected keyword: b'')"
  by code_simp

section \<open>What the parser computes\<close>

text \<open>The bodies of the parser's methods, with the token reads written as list indexing.\<close>

lemma parse_value_step:
  "parse_value tokens cur =
     (if length tokens \<le> cur then Inl IndexError
      else if ttype (tokens ! cur) \<in>
              set [TokenType_STRING, TokenType_NUMBER, TokenType_BOOLEAN, TokenType_NULL]
      then Inr (tvalue (tokens ! cur), cur + 1)
      else if ttype (tokens ! cur) = TokenType_LEFT_BRACE then parse_object tokens (cur + 1)
      else if ttype (tokens ! cur) = TokenType_LEFT_BRACKET then parse_array tokens (cur + 1)
      else Inl (ValueError (''Unexpected token: '' @ ttype (tokens ! cur))))"
  by (subst parse_value.simps) (simp add: Parser_advance_def)

lemma parse_object_end_step:
  "parse_object_end tokens obj cur =
     (if length tokens \<le> cur then Inl IndexError
      else if ttype (tokens ! cur) = TokenType_RIGHT_BRACE then Inr (PDict obj, cur + 1)
      else Inl (ValueError ''Expected '}' at end of object''))"
  by (simp add: parse_object_end_def expect_def Parser_peek_def Parser_advance_def)

lemma parse_array_end_step:
  "parse_array_end tokens arr cur =
     (if length tokens \<le> cur then Inl IndexError
      else if ttype (tokens ! cur) = TokenType_RIGHT_BRACKET then Inr (PList arr, cur + 1)
      else Inl (ValueError ''Expected ']' at end of array''))"
  by (simp add: parse_array_end_def expect_def Parser_peek_def Parser_advance_def)

lemma parse_object_loop_step:
  "parse_object_loop tokens obj cur =
     (if length tokens \<le> cur then Inl IndexError
      else if ttype (tokens ! cur) = TokenType_RIGHT_BRACE then Inr (PDict obj, cur + 1)
      else if ttype (tokens ! cur) \<noteq> TokenType_STRING
      then Inl (ValueError ''Expected string key'')
      else if length tokens \<le> cur + 1 then Inl IndexError
      else if ttype (tokens ! (cur + 1)) \<noteq> TokenType_COLON
      then Inl (ValueError ''Expected ':' after key'')
      else (case parse_value tokens (cur + 2) of
              Inl e \<Rightarrow> Inl e
            | Inr (v, cur3) \<Rightarrow>
                if length tokens \<le> cur3 then Inl IndexError
                else if ttype (tokens ! cur3) = TokenType_COMMA
                then parse_object_loop tokens (dict_setitem obj (tvalue (tokens ! cur)) v) (cur3 + 1)
                else parse_object_end tokens (dict_setitem obj (tvalue (tokens ! cur)) v) cur3))"
  by (subst parse_object_loop.simps)
     (simp add: parse_object_end_step expect_def Parser_peek_def Parser_advance_def
           split: sum.splits)

lemma parse_array_loop_step:
  "parse_array_loop tokens arr cur =
     (if length tokens \<le> cur then Inl IndexError
      else if ttype (tokens ! cur) = TokenType_RIGHT_BRACKET then Inr (PList arr, cur + 1)
      else (case parse_value tokens cur of
              Inl e \<Rightarrow> Inl e
            | Inr (v, cur1) \<Rightarrow>
                if length tokens \<le> cur1 then Inl IndexError
                else if ttype (tokens ! cur1) = TokenType_COMMA
                then parse_array_loop tokens (arr @ [v]) (cur1 + 1)
                else parse_array_end tokens (arr @ [v]) cur1))"
  by (subst parse_array_loop.simps)
     (simp add: parse_array_end_step Parser_peek_def Parser_advance_def split: sum.splits)

text \<open>Induction over the calls the parser makes.\<close>

lemma parser_induct:
  assumes v: "\<And>tokens cur.
      (cur < length tokens \<Longrightarrow> ttype (tokens ! cur) = TokenType_LEFT_BRACE
         \<Longrightarrow> P2 tokens (cur + 1))
      \<Longrightarrow> (cur < length tokens \<Longrightarrow> ttype (tokens ! cur) = TokenType_LEFT_BRACKET
         \<Longrightarrow> P4 tokens (cur + 1))
      \<Longrightarrow> P1 tokens cur"
    and ob: "\<And>tokens cur. P3 tokens [] cur \<Longrightarrow> P2 tokens cur"
    and ol: "\<And>tokens obj cur.
      (cur + 1 < length tokens \<Longrightarrow> ttype (tokens ! cur) = TokenType_STRING
         \<Longrightarrow> ttype (tokens ! (cur + 1)) = TokenType_COLON \<Longrightarrow> P1 tokens (cur + 2))
      \<Longrightarrow> (\<And>v cur3. cur + 1 < length tokens \<Longrightarrow> ttype (tokens ! cur) = TokenType_STRING
         \<Longrightarrow> ttype (tokens ! (cur + 1)) = TokenType_COLON
         \<Longrightarrow> parse_value tokens (cur + 2) = Inr (v, cur3)
         \<Longrightarrow> cur3 < length tokens \<Longrightarrow> ttype (tokens ! cur3) = TokenType_COMMA
         \<Longrightarrow> P3 tokens (dict_setitem obj (tvalue (tokens ! cur)) v) (cur3 + 1))
      \<Longrightarrow> P3 tokens obj cur"
    and ar: "\<And>tokens cur. P5 tokens [] cur \<Longrightarrow> P4 tokens cur"
    and al: "\<And>tokens arr cur.
      (cur < length tokens \<Longrightarrow> ttype (tokens ! cur) \<noteq> TokenType_RIGHT_BRACKET
         \<Longrightarrow> P1 tokens cur)
      \<Longrightarrow> (\<And>v cur1. cur < length tokens \<Longrightarrow> ttype (tokens ! cur) \<noteq> TokenType_RIGHT_BRACKET
         \<Longrightarrow> parse_value tokens cur = Inr (v, cur1)
         \<Longrightarrow> cur1 < length tokens \<Longrightarrow> ttype (tokens ! cur1) = TokenType_COMMA
         \<Longrightarrow> P5 tokens (arr @ [v]) (cur1 + 1))
      \<Longrightarrow> P5 tokens arr cur"
  shows "P1 tokens cur" and "P2 tokens cur" and "P3 tokens obj cur"
    and "P4 tokens cur" and "P5 tokens arr cur"
proof (induct tokens cur and tokens cur and tokens obj cur and tokens cur and tokens arr cur
       rule: parse_value_parse_object_parse_object_loop_parse_array_parse_array_loop.induct)
  case (1 tokens cur)
  show ?case
  proof (rule v)
    assume "cur < length tokens" "ttype (tokens ! cur) = TokenType_LEFT_BRACE"
    then show "P2 tokens (cur + 1)"
      by (intro "1.hyps"(1)[of "(tokens ! cur, cur + 1)"])
         (simp_all add: Parser_advance_def TokenType_defs)
  next
    assume "cur < length tokens" "ttype (tokens ! cur) = TokenType_LEFT_BRACKET"
    then show "P4 tokens (cur + 1)"
      by (intro "1.hyps"(2)[of "(tokens ! cur, cur + 1)"])
         (simp_all add: Parser_advance_def TokenType_defs)
  qed
next
  case (2 tokens cur)
  then show ?case by (rule ob)
next
  case (3 tokens obj cur)
  show ?case
  proof (rule ol)
    assume "cur + 1 < length tokens" "ttype (tokens ! cur) = TokenType_STRING"
      "ttype (tokens ! (cur + 1)) = TokenType_COLON"
    then show "P1 tokens (cur + 2)"
      by (intro "3.hyps"(1)[of "tokens ! cur" "(tokens ! cur, cur + 1)" "tokens ! cur" "cur + 1"
              "(tokens ! (cur + 1), cur + 2)" "tokens ! (cur + 1)" "cur + 2"])
         (simp_all add: Parser_peek_def Parser_advance_def expect_def TokenType_defs)
  next
    fix v cur3
    assume "cur + 1 < length tokens" "ttype (tokens ! cur) = TokenType_STRING"
      "ttype (tokens ! (cur + 1)) = TokenType_COLON"
      "parse_value tokens (cur + 2) = Inr (v, cur3)"
      "cur3 < length tokens" "ttype (tokens ! cur3) = TokenType_COMMA"
    then show "P3 tokens (dict_setitem obj (tvalue (tokens ! cur)) v) (cur3 + 1)"
      by (intro "3.hyps"(2)[of "tokens ! cur" "(tokens ! cur, cur + 1)" "tokens ! cur" "cur + 1"
              "(tokens ! (cur + 1), cur + 2)" "tokens ! (cur + 1)" "cur + 2" "(v, cur3)" v cur3
              "tokens ! cur3" "(tokens ! cur3, cur3 + 1)" "tokens ! cur3" "cur3 + 1"])
         (simp_all add: Parser_peek_def Parser_advance_def expect_def TokenType_defs)
  qed
next
  case (4 tokens cur)
  then show ?case by (rule ar)
next
  case (5 tokens arr cur)
  show ?case
  proof (rule al)
    assume "cur < length tokens" "ttype (tokens ! cur) \<noteq> TokenType_RIGHT_BRACKET"
    then show "P1 tokens cur"
      by (intro "5.hyps"(1)[of "tokens ! cur"]) (simp_all add: Parser_peek_def)
  next
    fix v cur1
    assume "cur < length tokens" "ttype (tokens ! cur) \<noteq> TokenType_RIGHT_BRACKET"
      "parse_value tokens cur = Inr (v, cur1)"
      "cur1 < length tokens" "ttype (tokens ! cur1) = TokenType_COMMA"
    then show "P5 tokens (arr @ [v]) (cur1 + 1)"
      by (intro "5.hyps"(2)[of "tokens ! cur" "(v, cur1)" v cur1 "tokens ! cur1"
              "(tokens ! cur1, cur1 + 1)" "tokens ! cur1" "cur1 + 1"])
         (simp_all add: Parser_peek_def Parser_advance_def)
  qed
qed

text \<open>A call that returns has moved the cursor forward, inside the token list.\<close>

lemma parse_advances:
  shows "parse_value tokens cur = Inr (v, c) \<Longrightarrow> cur < c \<and> c \<le> length tokens"
    and "parse_object tokens cur = Inr (v, c) \<Longrightarrow> cur < c \<and> c \<le> length tokens"
    and "parse_object_loop tokens obj cur = Inr (v, c) \<Longrightarrow> cur < c \<and> c \<le> length tokens"
    and "parse_array tokens cur = Inr (v, c) \<Longrightarrow> cur < c \<and> c \<le> length tokens"
    and "parse_array_loop tokens arr cur = Inr (v, c) \<Longrightarrow> cur < c \<and> c \<le> length tokens"
proof (induct tokens cur and tokens cur and tokens obj cur and tokens cur and tokens arr cur
       arbitrary: v c and v c and v c and v c and v c rule: parser_induct)
  case (1 tokens cur)
  from "1.prems" "1.hyps" show ?case
    by (auto simp: parse_value_step[of tokens cur] split: if_splits)
next
  case (2 tokens cur)
  then show ?case by (simp add: parse_object.simps)
next
  case (3 tokens obj cur)
  from "3.prems" "3.hyps" show ?case
    by (fastforce simp: parse_object_loop_step[of tokens obj cur] parse_object_end_step
             split: if_splits sum.splits)
next
  case (4 tokens cur)
  then show ?case by (simp add: parse_array.simps)
next
  case (5 tokens arr cur)
  from "5.prems" "5.hyps" show ?case
    by (fastforce simp: parse_array_loop_step[of tokens arr cur] parse_array_end_step
             split: if_splits sum.splits)
qed

text \<open>
  With an end-of-input token at position \<open>n\<close> and the cursor at or before it, no read
  leaves the token list and a call that returns stops at or before \<open>n\<close>.
\<close>

lemma parse_in_bounds:
  shows "n < length tokens \<Longrightarrow> ttype (tokens ! n) = TokenType_EOF \<Longrightarrow> cur \<le> n \<Longrightarrow>
           parse_value tokens cur \<noteq> Inl IndexError
           \<and> (\<forall>v c. parse_value tokens cur = Inr (v, c) \<longrightarrow> c \<le> n)"
    and "n < length tokens \<Longrightarrow> ttype (tokens ! n) = TokenType_EOF \<Longrightarrow> cur \<le> n \<Longrightarrow>
           parse_object tokens cur \<noteq> Inl IndexError
           \<and> (\<forall>v c. parse_object tokens cur = Inr (v, c) \<longrightarrow> c \<le> n)"
    and "n < length tokens \<Longrightarrow> ttype (tokens ! n) = TokenType_EOF \<Longrightarrow> cur \<le> n \<Longrightarrow>
           parse_object_loop tokens obj cur \<noteq> Inl IndexError
           \<and> (\<forall>v c. parse_object_loop tokens obj cur = Inr (v, c) \<longrightarrow> c \<le> n)"
    and "n < length tokens \<Longrightarrow> ttype (tokens ! n) = TokenType_EOF \<Longrightarrow> cur \<le> n \<Longrightarrow>
           parse_array tokens cur \<noteq> Inl IndexError
           \<and> (\<forall>v c. parse_array tokens cur = Inr (v, c) \<longrightarrow> c \<le> n)"
    and "n < length tokens \<Longrightarrow> ttype (tokens ! n) = TokenType_EOF \<Longrightarrow> cur \<le> n \<Longrightarrow>
           parse_array_loop tokens arr cur \<noteq> Inl IndexError
           \<and> (\<forall>v c. parse_array_loop tokens arr cur = Inr (v, c) \<longrightarrow> c \<le> n)"
proof (induct tokens cur and tokens cur and tokens obj cur and tokens cur and tokens arr cur
       rule: parser_induct)
  case (1 tokens cur)
  have ne: "ttype (tokens ! cur) \<noteq> TokenType_EOF \<Longrightarrow> cur + 1 \<le> n"
    using "1.prems" by (cases "cur = n") auto
  show ?case
  proof (cases "ttype (tokens ! cur) = TokenType_EOF")
    case True
    with "1.prems" show ?thesis
      by (simp add: parse_value_step[of tokens cur] TokenType_defs)
  next
    case False
    from ne[OF False] "1.prems" "1.hyps" show ?thesis
      by (auto simp: parse_value_step[of tokens cur] TokenType_defs)
  qed
next
  case (2 tokens cur)
  then show ?case by (simp add: parse_object.simps)
next
  case (3 tokens obj cur)
  note st = parse_object_loop_step[of tokens obj cur]
  have lt: "cur < length tokens" using "3.prems" by simp
  show ?case
  proof (cases "ttype (tokens ! cur) = TokenType_RIGHT_BRACE")
    case True
    then have "cur \<noteq> n" using "3.prems" by (auto simp: TokenType_defs)
    with True lt "3.prems" show ?thesis by (simp add: st)
  next
    case nrb: False
    show ?thesis
    proof (cases "ttype (tokens ! cur) = TokenType_STRING")
      case False
      with nrb lt show ?thesis by (simp add: st)
    next
      case str: True
      then have "cur \<noteq> n" using "3.prems" by (auto simp: TokenType_defs)
      then have c1: "cur + 1 \<le> n" using "3.prems" by simp
      then have lt1: "cur + 1 < length tokens" using "3.prems" by simp
      show ?thesis
      proof (cases "ttype (tokens ! (cur + 1)) = TokenType_COLON")
        case False
        with nrb str lt lt1 show ?thesis by (simp add: st)
      next
        case col: True
        then have "cur + 1 \<noteq> n" using "3.prems" by (auto simp: TokenType_defs)
        then have c2: "cur + 2 \<le> n" using c1 by simp
        note ihv = "3.hyps"(1)[OF lt1 str col "3.prems"(1,2) c2]
        show ?thesis
        proof (cases "parse_value tokens (cur + 2)")
          case (Inl e)
          with ihv nrb str lt lt1 col show ?thesis by (simp add: st)
        next
          case (Inr p)
          obtain v cur3 where p: "p = (v, cur3)" by (cases p)
          have pv: "parse_value tokens (cur + 2) = Inr (v, cur3)" using Inr p by simp
          have c3: "cur3 \<le> n" using ihv pv by simp
          then have lt3: "cur3 < length tokens" using "3.prems" by simp
          show ?thesis
          proof (cases "ttype (tokens ! cur3) = TokenType_COMMA")
            case True
            then have "cur3 \<noteq> n" using "3.prems" by (auto simp: TokenType_defs)
            then have c4: "cur3 + 1 \<le> n" using c3 by simp
            from "3.hyps"(2)[OF lt1 str col pv lt3 True "3.prems"(1,2) c4]
            show ?thesis
              using nrb str lt lt1 col pv lt3 True by (simp add: st)
          next
            case False
            have "ttype (tokens ! cur3) = TokenType_RIGHT_BRACE \<Longrightarrow> cur3 \<noteq> n"
              using "3.prems" by (auto simp: TokenType_defs)
            then show ?thesis
              using nrb str lt lt1 col pv lt3 False c3
              by (auto simp: st parse_object_end_step)
          qed
        qed
      qed
    qed
  qed
next
  case (4 tokens cur)
  then show ?case by (simp add: parse_array.simps)
next
  case (5 tokens arr cur)
  note st = parse_array_loop_step[of tokens arr cur]
  have lt: "cur < length tokens" using "5.prems" by simp
  show ?case
  proof (cases "ttype (tokens ! cur) = TokenType_RIGHT_BRACKET")
    case True
    then have "cur \<noteq> n" using "5.prems" by (auto simp: TokenType_defs)
    with True lt "5.prems" show ?thesis by (simp add: st)
  next
    case nrb: False
    note ihv = "5.hyps"(1)[OF lt nrb "5.prems"]
    show ?thesis
    proof (cases "parse_value tokens cur")
      case (Inl e)
      with ihv nrb lt show ?thesis by (simp add: st)
    next
      case (Inr p)
      obtain v cur1 where p: "p = (v, cur1)" by (cases p)
      have pv: "parse_value tokens cur = Inr (v, cur1)" using Inr p by simp
      have c1: "cur1 \<le> n" using ihv pv by simp
      then have lt1: "cur1 < length tokens" using "5.prems" by simp
      show ?thesis
      proof (cases "ttype (tokens ! cur1) = TokenType_COMMA")
        case True
        then have "cur1 \<noteq> n" using "5.prems" by (auto simp: TokenType_defs)
        then have c2: "cur1 + 1 \<le> n" using c1 by simp
        from "5.hyps"(2)[OF lt nrb pv lt1 True "5.prems"(1,2) c2]
        show ?thesis
          using nrb lt pv lt1 True by (simp add: st)
      next
        case False
        have "ttype (tokens ! cur1) = TokenType_RIGHT_BRACKET \<Longrightarrow> cur1 \<noteq> n"
          using "5.prems" by (auto simp: TokenType_defs)
        then show ?thesis
          using nrb lt pv lt1 False c1
          by (auto simp: st parse_array_end_step)
      qed
    qed
  qed
qed

text \<open>A call that returns has read only the tokens before the cursor it returns.\<close>

lemma take_eq_nth:
  assumes "take c xs' = take c xs" "c \<le> length xs" "k < c"
  shows "xs' ! k = xs ! k" and "k < length xs'"
proof -
  have "length (take c xs') = c" using assms(1,2) by simp
  then show "k < length xs'" using assms(3) by simp
  have "xs' ! k = take c xs' ! k" using assms(3) by simp
  also have "\<dots> = xs ! k" using assms(1,3) by simp
  finally show "xs' ! k = xs ! k" .
qed

lemma take_eq_le:
  assumes "take c xs' = take c xs" "c' \<le> c"
  shows "take c' xs' = take c' xs"
proof -
  have "take c' xs' = take c' (take c xs')" using assms(2) by (simp add: min_def)
  also have "\<dots> = take c' (take c xs)" using assms(1) by simp
  also have "\<dots> = take c' xs" using assms(2) by (simp add: min_def)
  finally show ?thesis .
qed

lemma parse_prefix:
  shows "parse_value tokens cur = Inr (v, c) \<Longrightarrow> take c tokens' = take c tokens \<Longrightarrow>
           parse_value tokens' cur = Inr (v, c)"
    and "parse_object tokens cur = Inr (v, c) \<Longrightarrow> take c tokens' = take c tokens \<Longrightarrow>
           parse_object tokens' cur = Inr (v, c)"
    and "parse_object_loop tokens obj cur = Inr (v, c) \<Longrightarrow> take c tokens' = take c tokens \<Longrightarrow>
           parse_object_loop tokens' obj cur = Inr (v, c)"
    and "parse_array tokens cur = Inr (v, c) \<Longrightarrow> take c tokens' = take c tokens \<Longrightarrow>
           parse_array tokens' cur = Inr (v, c)"
    and "parse_array_loop tokens arr cur = Inr (v, c) \<Longrightarrow> take c tokens' = take c tokens \<Longrightarrow>
           parse_array_loop tokens' arr cur = Inr (v, c)"
proof (induct tokens cur and tokens cur and tokens obj cur and tokens cur and tokens arr cur
       arbitrary: v c and v c and v c and v c and v c rule: parser_induct)
  case (1 tokens cur)
  have b: "cur < c" "c \<le> length tokens" using parse_advances(1)[OF "1.prems"(1)] by simp_all
  note same = take_eq_nth[OF "1.prems"(2) b(2) b(1)]
  have lt: "cur < length tokens" using b by simp
  from "1.prems" "1.hyps" lt same show ?case
    by (auto simp: parse_value_step[of tokens cur] parse_value_step[of tokens' cur]
             split: if_splits)
next
  case (2 tokens cur)
  then show ?case by (simp add: parse_object.simps)
next
  case (3 tokens obj cur)
  note st = parse_object_loop_step[of tokens obj cur]
  note st' = parse_object_loop_step[of tokens' obj cur]
  have b: "cur < c" "c \<le> length tokens" using parse_advances(3)[OF "3.prems"(1)] by simp_all
  note same = take_eq_nth[OF "3.prems"(2) b(2) b(1)]
  have lt: "cur < length tokens" using b by simp
  show ?case
  proof (cases "ttype (tokens ! cur) = TokenType_RIGHT_BRACE")
    case True
    with "3.prems"(1) lt same show ?thesis by (simp add: st st')
  next
    case nrb: False
    from "3.prems"(1) nrb lt have str: "ttype (tokens ! cur) = TokenType_STRING"
      and lt1: "cur + 1 < length tokens" and col: "ttype (tokens ! (cur + 1)) = TokenType_COLON"
      by (auto simp: st split: if_splits)
    from "3.prems"(1) nrb lt str lt1 col obtain val cur3 where
      pv: "parse_value tokens (cur + 2) = Inr (val, cur3)"
      by (auto simp: st split: sum.splits)
    have b3: "cur + 2 < cur3" "cur3 \<le> length tokens" using parse_advances(1)[OF pv] by simp_all
    from "3.prems"(1) nrb lt str lt1 col pv have lt3: "cur3 < length tokens"
      by (auto simp: st split: if_splits)
    have c3c: "cur3 < c"
    proof (cases "ttype (tokens ! cur3) = TokenType_COMMA")
      case True
      with "3.prems"(1) nrb lt str lt1 col pv lt3
      have "parse_object_loop tokens (dict_setitem obj (tvalue (tokens ! cur)) val) (cur3 + 1) = Inr (v, c)"
        by (simp add: st)
      from parse_advances(3)[OF this] show ?thesis by simp
    next
      case False
      with "3.prems"(1) nrb lt str lt1 col pv lt3 show ?thesis
        by (auto simp: st parse_object_end_step split: if_splits)
    qed
    have same1: "tokens' ! (cur + 1) = tokens ! (cur + 1)" "cur + 1 < length tokens'"
      using take_eq_nth[OF "3.prems"(2) b(2), of "cur + 1"] b3 c3c by simp_all
    have same3: "tokens' ! cur3 = tokens ! cur3" "cur3 < length tokens'"
      using take_eq_nth[OF "3.prems"(2) b(2) c3c] by simp_all
    have pv': "parse_value tokens' (cur + 2) = Inr (val, cur3)"
      using "3.hyps"(1)[OF lt1 str col pv] take_eq_le[OF "3.prems"(2), of cur3] c3c by simp
    show ?thesis
    proof (cases "ttype (tokens ! cur3) = TokenType_COMMA")
      case True
      with "3.prems"(1) nrb lt str lt1 col pv lt3
      have rec: "parse_object_loop tokens (dict_setitem obj (tvalue (tokens ! cur)) val) (cur3 + 1) = Inr (v, c)"
        by (simp add: st)
      from "3.hyps"(2)[OF lt1 str col pv lt3 True rec "3.prems"(2)]
      show ?thesis
        using nrb str col True same same1 same3 pv' by (simp add: st')
    next
      case False
      with "3.prems"(1) nrb lt str lt1 col pv lt3
      have "parse_object_end tokens (dict_setitem obj (tvalue (tokens ! cur)) val) cur3 = Inr (v, c)"
        by (simp add: st)
      then have "parse_object_end tokens' (dict_setitem obj (tvalue (tokens ! cur)) val) cur3 = Inr (v, c)"
        using same3 lt3 by (simp add: parse_object_end_step split: if_splits)
      then show ?thesis
        using nrb str col False same same1 same3 pv' by (simp add: st')
    qed
  qed
next
  case (4 tokens cur)
  then show ?case by (simp add: parse_array.simps)
next
  case (5 tokens arr cur)
  note st = parse_array_loop_step[of tokens arr cur]
  note st' = parse_array_loop_step[of tokens' arr cur]
  have b: "cur < c" "c \<le> length tokens" using parse_advances(5)[OF "5.prems"(1)] by simp_all
  note same = take_eq_nth[OF "5.prems"(2) b(2) b(1)]
  have lt: "cur < length tokens" using b by simp
  show ?case
  proof (cases "ttype (tokens ! cur) = TokenType_RIGHT_BRACKET")
    case True
    with "5.prems"(1) lt same show ?thesis by (simp add: st st')
  next
    case nrb: False
    from "5.prems"(1) nrb lt obtain val cur1 where
      pv: "parse_value tokens cur = Inr (val, cur1)"
      by (auto simp: st split: sum.splits)
    have b1: "cur < cur1" "cur1 \<le> length tokens" using parse_advances(1)[OF pv] by simp_all
    from "5.prems"(1) nrb lt pv have lt1: "cur1 < length tokens"
      by (auto simp: st split: if_splits)
    have c1c: "cur1 < c"
    proof (cases "ttype (tokens ! cur1) = TokenType_COMMA")
      case True
      with "5.prems"(1) nrb lt pv lt1
      have "parse_array_loop tokens (arr @ [val]) (cur1 + 1) = Inr (v, c)"
        by (simp add: st)
      from parse_advances(5)[OF this] show ?thesis by simp
    next
      case False
      with "5.prems"(1) nrb lt pv lt1 show ?thesis
        by (auto simp: st parse_array_end_step split: if_splits)
    qed
    have same1: "tokens' ! cur1 = tokens ! cur1" "cur1 < length tokens'"
      using take_eq_nth[OF "5.prems"(2) b(2) c1c] by simp_all
    have pv': "parse_value tokens' cur = Inr (val, cur1)"
      using "5.hyps"(1)[OF lt nrb pv] take_eq_le[OF "5.prems"(2), of cur1] c1c by simp
    show ?thesis
    proof (cases "ttype (tokens ! cur1) = TokenType_COMMA")
      case True
      with "5.prems"(1) nrb lt pv lt1
      have rec: "parse_array_loop tokens (arr @ [val]) (cur1 + 1) = Inr (v, c)"
        by (simp add: st)
      from "5.hyps"(2)[OF lt nrb pv lt1 True rec "5.prems"(2)]
      show ?thesis
        using nrb True same same1 pv' by (simp add: st')
    next
      case False
      with "5.prems"(1) nrb lt pv lt1
      have "parse_array_end tokens (arr @ [val]) cur1 = Inr (v, c)"
        by (simp add: st)
      then have "parse_array_end tokens' (arr @ [val]) cur1 = Inr (v, c)"
        using same1 lt1 by (simp add: parse_array_end_step split: if_splits)
      then show ?thesis
        using nrb False same same1 pv' by (simp add: st')
    qed
  qed
qed

section \<open>The token list and the cursor\<close>

lemma scanned_token_types:
  shows "scan_string src cur = Inr (t, cur') \<Longrightarrow> ttype t = TokenType_STRING"
    and "scan_number src ch cur = Inr (t, cur') \<Longrightarrow> ttype t = TokenType_NUMBER"
    and "scan_keyword src ch cur = Inr (t, cur') \<Longrightarrow>
           ttype t = TokenType_BOOLEAN \<or> ttype t = TokenType_NULL"
  by (auto simp: scan_string_eq scan_number_eq scan_keyword_eq split: if_splits sum.splits)

lemma scan_tokens_loop_EOF:
  "scan_tokens_loop src tokens cur = Inr toks \<Longrightarrow>
   list_all (\<lambda>t. ttype t \<noteq> TokenType_EOF) tokens \<Longrightarrow>
   \<exists>mid. toks = mid @ [Token TokenType_EOF PNone] \<and> list_all (\<lambda>t. ttype t \<noteq> TokenType_EOF) mid"
proof (induct "length src - cur" arbitrary: cur tokens rule: less_induct)
  case less
  show ?case
  proof (cases "cur < length src")
    case False
    with less.prems show ?thesis by (auto simp: scan_tokens_loop_end)
  next
    case True
    note st = scan_tokens_loop_step[OF True, of tokens]
    let ?c = "src ! cur"
    have d1: "length src - (cur + 1) < length src - cur" using True by simp
    consider (ws) "?c \<in> set whitespace"
      | (punct) "?c \<notin> set whitespace" "?c \<in> set ''{}[],:''"
      | (str) "?c \<notin> set whitespace" "?c \<notin> set ''{}[],:''" "?c = dquote"
      | (num) "?c \<notin> set whitespace" "?c \<notin> set ''{}[],:''" "?c \<noteq> dquote"
          "isdigit ?c \<or> ?c = CHR ''-''"
      | (kw) "?c \<notin> set whitespace" "?c \<notin> set ''{}[],:''" "?c \<noteq> dquote"
          "\<not> (isdigit ?c \<or> ?c = CHR ''-'')" "isalpha ?c"
      | (bad) "?c \<notin> set whitespace" "?c \<notin> set ''{}[],:''" "?c \<noteq> dquote"
          "\<not> (isdigit ?c \<or> ?c = CHR ''-'')" "\<not> isalpha ?c"
      by blast
    then show ?thesis
    proof cases
      case ws
      with less.prems(1) have "scan_tokens_loop src tokens (cur + 1) = Inr toks"
        by (simp add: st)
      from less.hyps[OF d1 this less.prems(2)] show ?thesis .
    next
      case punct
      with less.prems(1)
      have r: "scan_tokens_loop src (tokens @ [Token [?c] (PStr [?c])]) (cur + 1) = Inr toks"
        by (simp add: st)
      have "list_all (\<lambda>t. ttype t \<noteq> TokenType_EOF) (tokens @ [Token [?c] (PStr [?c])])"
        using less.prems(2) by (simp add: TokenType_defs)
      from less.hyps[OF d1 r this] show ?thesis .
    next
      case str
      with less.prems(1) obtain t cur2 where
        s: "scan_string src (cur + 1) = Inr (t, cur2)"
        and r: "scan_tokens_loop src (tokens @ [t]) cur2 = Inr toks"
        by (auto simp: st split: sum.splits)
      have d: "length src - cur2 < length src - cur" using scan_string_ge[OF s] True by simp
      have "list_all (\<lambda>t. ttype t \<noteq> TokenType_EOF) (tokens @ [t])"
        using less.prems(2) scanned_token_types(1)[OF s] by (simp add: TokenType_defs)
      from less.hyps[OF d r this] show ?thesis .
    next
      case num
      with less.prems(1) obtain t cur2 where
        s: "scan_number src ?c (cur + 1) = Inr (t, cur2)"
        and r: "scan_tokens_loop src (tokens @ [t]) cur2 = Inr toks"
        by (auto simp: st split: sum.splits)
      have d: "length src - cur2 < length src - cur" using scan_number_ge[OF s] True by simp
      have "list_all (\<lambda>t. ttype t \<noteq> TokenType_EOF) (tokens @ [t])"
        using less.prems(2) scanned_token_types(2)[OF s] by (simp add: TokenType_defs)
      from less.hyps[OF d r this] show ?thesis .
    next
      case kw
      with less.prems(1) obtain t cur2 where
        s: "scan_keyword src ?c (cur + 1) = Inr (t, cur2)"
        and r: "scan_tokens_loop src (tokens @ [t]) cur2 = Inr toks"
        by (auto simp: st split: sum.splits)
      have d: "length src - cur2 < length src - cur" using scan_keyword_ge[OF s] True by simp
      have "list_all (\<lambda>t. ttype t \<noteq> TokenType_EOF) (tokens @ [t])"
        using less.prems(2) scanned_token_types(3)[OF s] by (auto simp: TokenType_defs)
      from less.hyps[OF d r this] show ?thesis .
    next
      case bad
      with less.prems(1) show ?thesis by (simp add: st)
    qed
  qed
qed

lemma scan_tokens_EOF:
  assumes "scan_tokens src = Inr toks"
  obtains mid where "toks = mid @ [Token TokenType_EOF PNone]"
    and "list_all (\<lambda>t. ttype t \<noteq> TokenType_EOF) mid"
  using scan_tokens_loop_EOF[of src "[]" 0 toks] assms by (auto simp: scan_tokens_def)

text \<open>
  Claim C4. When \<^verbatim>\<open>scan_tokens\<close> returns a token list, that list holds exactly one token
  of type \<^verbatim>\<open>EOF\<close>, and it is the last one. The parser run on the list never raises
  \<^verbatim>\<open>IndexError\<close>, which is what a read of \<^verbatim>\<open>self.tokens[self.current]\<close> past the end would
  raise, and when it returns its cursor has stopped at or before the \<^verbatim>\<open>EOF\<close> token. The
  cursor is the only access path and only moves forward: on any token list, a parser
  method that returns has moved it to a later position inside the list.
\<close>

theorem one_EOF_and_no_read_past_it:
  "(\<forall>src toks.
      scan_tokens src = Inr toks
      \<longrightarrow> toks \<noteq> [] \<and> last toks = Token TokenType_EOF PNone
        \<and> length (filter (\<lambda>t. ttype t = TokenType_EOF) toks) = 1
        \<and> parse_value toks 0 \<noteq> Inl IndexError
        \<and> parse toks \<noteq> Inl IndexError
        \<and> parse_json src \<noteq> Inl IndexError
        \<and> (\<forall>v c. parse_value toks 0 = Inr (v, c) \<longrightarrow> c \<le> length toks - 1))
   \<and> (\<forall>tokens cur v c.
      parse_value tokens cur = Inr (v, c) \<longrightarrow> cur < c \<and> c \<le> length tokens)"
proof -
  have scanned: "toks \<noteq> [] \<and> last toks = Token TokenType_EOF PNone
        \<and> length (filter (\<lambda>t. ttype t = TokenType_EOF) toks) = 1
        \<and> parse_value toks 0 \<noteq> Inl IndexError
        \<and> parse toks \<noteq> Inl IndexError
        \<and> parse_json src \<noteq> Inl IndexError
        \<and> (\<forall>v c. parse_value toks 0 = Inr (v, c) \<longrightarrow> c \<le> length toks - 1)"
    if sc: "scan_tokens src = Inr toks" for src toks
  proof -
    from sc obtain mid where toks: "toks = mid @ [Token TokenType_EOF PNone]"
      and mid: "list_all (\<lambda>t. ttype t \<noteq> TokenType_EOF) mid"
      by (rule scan_tokens_EOF)
    have a: "toks \<noteq> []" and b: "last toks = Token TokenType_EOF PNone" using toks by simp_all
    have "filter (\<lambda>t. ttype t = TokenType_EOF) mid = []"
      using mid by (simp add: filter_empty_conv list_all_iff)
    then have c: "length (filter (\<lambda>t. ttype t = TokenType_EOF) toks) = 1"
      using toks by simp
    have n: "length toks - 1 < length toks" "ttype (toks ! (length toks - 1)) = TokenType_EOF"
      using toks by simp_all
    note ib = parse_in_bounds(1)[OF n, of 0]
    have d: "parse_value toks 0 \<noteq> Inl IndexError" using ib by simp
    then have e: "parse toks \<noteq> Inl IndexError"
      by (auto simp: parse_def split: sum.splits)
    then have f: "parse_json src \<noteq> Inl IndexError" using sc by (simp add: parse_json_def)
    have g: "\<forall>v c. parse_value toks 0 = Inr (v, c) \<longrightarrow> c \<le> length toks - 1" using ib by simp
    show ?thesis using a b c d e f g by blast
  qed
  have forward: "cur < c \<and> c \<le> length tokens"
    if "parse_value tokens cur = Inr (v, c)" for tokens cur v c
    using that by (rule parse_advances(1))
  show ?thesis using scanned forward by blast
qed

theorem one_EOF_and_no_read_past_it_witness:
  "scan_tokens ''[1,'' =
     Inr [Token ''['' (PStr ''[''), Token TokenType_NUMBER (PInt 1), Token '','' (PStr '',''),
          Token TokenType_EOF PNone]
   \<and> parse_json ''[1,'' \<noteq> Inl IndexError
   \<and> parse_json ''[1,'' = Inl (ValueError ''Unexpected token: EOF'')
   \<and> parse_value [Token TokenType_NUMBER (PInt 1), Token TokenType_EOF PNone] 0 = Inr (PInt 1, 1)
   \<and> 0 < (1::nat)"
proof -
  have s: "scan_tokens ''[1,'' =
     Inr [Token ''['' (PStr ''[''), Token TokenType_NUMBER (PInt 1), Token '','' (PStr '',''),
          Token TokenType_EOF PNone]"
    by code_simp
  have e: "parse_json ''[1,'' = Inl (ValueError ''Unexpected token: EOF'')" by code_simp
  have v: "parse_value [Token TokenType_NUMBER (PInt 1), Token TokenType_EOF PNone] 0 = Inr (PInt 1, 1)"
    by code_simp
  from one_EOF_and_no_read_past_it[THEN conjunct1, rule_format, OF s]
  have "parse_json ''[1,'' \<noteq> Inl IndexError" by simp
  moreover from one_EOF_and_no_read_past_it[THEN conjunct2, rule_format, OF v]
  have "0 < (1::nat)" by simp
  ultimately show ?thesis using s e v by simp
qed

text \<open>
  Claim C3. \<^verbatim>\<open>parse\<close> calls \<^verbatim>\<open>parse_value\<close> once, at cursor 0, and returns its value without
  looking at the cursor it stopped at. A parser method that returns has read only the
  tokens before that cursor, so it returns the same on every token list with the same
  tokens up to there. Hence, when an input \<open>s1\<close> scans to the tokens \<open>t1\<close> and
  \<^verbatim>\<open>EOF\<close> and parses to \<open>v\<close>, every input that scans to \<open>t1\<close>, further tokens \<open>t2\<close>
  and \<^verbatim>\<open>EOF\<close> parses to \<open>v\<close> as well: \<^verbatim>\<open>parse_json("1 2")\<close> is 1 and
  \<^verbatim>\<open>parse_json("{} true")\<close> is the empty object.
\<close>

theorem trailing_tokens_ignored:
  "(\<forall>s1 s t1 t2 v.
      scan_tokens s1 = Inr (t1 @ [Token TokenType_EOF PNone]) \<and> parse_json s1 = Inr v
      \<and> scan_tokens s = Inr (t1 @ t2 @ [Token TokenType_EOF PNone])
      \<longrightarrow> parse_json s = Inr v)
   \<and> (\<forall>tokens tokens' cur v c.
      parse_value tokens cur = Inr (v, c) \<and> take c tokens' = take c tokens
      \<longrightarrow> parse_value tokens' cur = Inr (v, c))
   \<and> (\<forall>tokens v c. parse_value tokens 0 = Inr (v, c) \<longrightarrow> parse tokens = Inr v)
   \<and> parse_json ''1 2'' = Inr (PInt 1)
   \<and> parse_json ''{} true'' = Inr (PDict [])"
proof -
  have pre: "parse_value tokens' cur = Inr (v, c)"
    if "parse_value tokens cur = Inr (v, c)" "take c tokens' = take c tokens"
    for tokens tokens' cur v c
    using that by (rule parse_prefix(1))
  have drv: "parse tokens = Inr v" if "parse_value tokens 0 = Inr (v, c)" for tokens v c
    using that by (simp add: parse_def)
  have main: "parse_json s = Inr v"
    if s1: "scan_tokens s1 = Inr (t1 @ [Token TokenType_EOF PNone])"
      and v: "parse_json s1 = Inr v"
      and s: "scan_tokens s = Inr (t1 @ t2 @ [Token TokenType_EOF PNone])"
    for s1 s t1 t2 v
  proof -
    let ?a = "t1 @ [Token TokenType_EOF PNone]"
    let ?b = "t1 @ t2 @ [Token TokenType_EOF PNone]"
    from v s1 obtain c where pv: "parse_value ?a 0 = Inr (v, c)"
      by (auto simp: parse_json_def parse_def split: sum.splits)
    have "c \<le> length t1"
      using parse_in_bounds(1)[of "length t1" ?a 0] pv by simp
    then have "take c ?b = take c ?a" by simp
    from pre[OF pv this] have "parse ?b = Inr v" by (rule drv)
    then show ?thesis using s by (simp add: parse_json_def)
  qed
  have e1: "parse_json ''1 2'' = Inr (PInt 1)" by code_simp
  have e2: "parse_json ''{} true'' = Inr (PDict [])" by code_simp
  show ?thesis using main pre drv e1 e2 by blast
qed

theorem trailing_tokens_ignored_witness:
  "parse_json ''[1] ]'' = Inr (PList [PInt 1])
   \<and> parse_value [Token TokenType_NULL PNone, Token '','' (PStr '','')] 0 = Inr (PNone, 1)
   \<and> parse [Token TokenType_NULL PNone, Token '','' (PStr '','')] = Inr PNone"
proof -
  have s1: "scan_tokens ''[1]'' =
      Inr ([Token ''['' (PStr ''[''), Token TokenType_NUMBER (PInt 1), Token '']'' (PStr '']'')]
           @ [Token TokenType_EOF PNone])"
    by code_simp
  have v: "parse_json ''[1]'' = Inr (PList [PInt 1])" by code_simp
  have s: "scan_tokens ''[1] ]'' =
      Inr ([Token ''['' (PStr ''[''), Token TokenType_NUMBER (PInt 1), Token '']'' (PStr '']'')]
           @ [Token '']'' (PStr '']'')] @ [Token TokenType_EOF PNone])"
    by code_simp
  have a: "parse_json ''[1] ]'' = Inr (PList [PInt 1])"
    using trailing_tokens_ignored[THEN conjunct1, rule_format, OF conjI[OF s1 conjI[OF v s]]] .
  have p: "parse_value [Token TokenType_NULL PNone] 0 = Inr (PNone, 1)" by code_simp
  have b: "parse_value [Token TokenType_NULL PNone, Token '','' (PStr '','')] 0 = Inr (PNone, 1)"
    using trailing_tokens_ignored[THEN conjunct2, THEN conjunct1, rule_format,
        of "[Token TokenType_NULL PNone]" 0 PNone 1
           "[Token TokenType_NULL PNone, Token '','' (PStr '','')]"] p
    by simp
  have c: "parse [Token TokenType_NULL PNone, Token '','' (PStr '','')] = Inr PNone"
    using trailing_tokens_ignored[THEN conjunct2, THEN conjunct2, THEN conjunct1, rule_format, OF b] .
  show ?thesis using a b c by simp
qed

section \<open>The value production\<close>

lemma scan_whitespace_only:
  "list_all (\<lambda>c. c \<in> set whitespace) (drop cur src) \<Longrightarrow>
   scan_tokens_loop src tokens cur = Inr (tokens @ [Token TokenType_EOF PNone])"
proof (induct "length src - cur" arbitrary: cur)
  case 0
  then show ?case by (simp add: scan_tokens_loop_end)
next
  case (Suc n)
  then have lt: "cur < length src" by simp
  have dr: "drop cur src = src ! cur # drop (cur + 1) src"
    using lt by (simp add: Cons_nth_drop_Suc)
  have ws: "src ! cur \<in> set whitespace" and rest: "list_all (\<lambda>c. c \<in> set whitespace) (drop (cur + 1) src)"
    using Suc.prems dr by simp_all
  have "n = length src - (cur + 1)" using Suc.hyps(2) by simp
  from Suc.hyps(1)[OF this rest] show ?case
    using ws by (simp add: scan_tokens_loop_step[OF lt])
qed

text \<open>
  Claim C7. \<^verbatim>\<open>parse_value\<close> reads the token at the cursor and moves the cursor by one. For
  a token of type \<^verbatim>\<open>STRING\<close>, \<^verbatim>\<open>NUMBER\<close>, \<^verbatim>\<open>BOOLEAN\<close> or \<^verbatim>\<open>NULL\<close> it returns the token's
  value; for a left brace it is \<^verbatim>\<open>parse_object\<close> from the next position, for a left
  bracket \<^verbatim>\<open>parse_array\<close> from the next position; for every other type, \<^verbatim>\<open>EOF\<close> among them,
  it raises \<^verbatim>\<open>ValueError("Unexpected token: type")\<close>. An input of whitespace only, the
  empty input included, scans to the single \<^verbatim>\<open>EOF\<close> token, so \<^verbatim>\<open>parse_json\<close> raises
  \<^verbatim>\<open>ValueError("Unexpected token: EOF")\<close> from the parser. The spec's \<^verbatim>\<open>ParseError\<close> is a
  \<^verbatim>\<open>ValueError\<close> raised by the parser.
\<close>

theorem parse_value_dispatch:
  "(\<forall>tokens cur.
      cur < length tokens
      \<longrightarrow> parse_value tokens cur =
           (let token = tokens ! cur in
            if ttype token = TokenType_STRING \<or> ttype token = TokenType_NUMBER
               \<or> ttype token = TokenType_BOOLEAN \<or> ttype token = TokenType_NULL
            then Inr (tvalue token, cur + 1)
            else if ttype token = TokenType_LEFT_BRACE then parse_object tokens (cur + 1)
            else if ttype token = TokenType_LEFT_BRACKET then parse_array tokens (cur + 1)
            else Inl (ValueError (''Unexpected token: '' @ ttype token))))
   \<and> (\<forall>tokens cur.
      cur < length tokens \<and> ttype (tokens ! cur) = TokenType_EOF
      \<longrightarrow> parse_value tokens cur = Inl (ValueError ''Unexpected token: EOF''))
   \<and> (\<forall>s.
      list_all (\<lambda>c. c \<in> set whitespace) s
      \<longrightarrow> scan_tokens s = Inr [Token TokenType_EOF PNone]
        \<and> parse_json s = Inl (ValueError ''Unexpected token: EOF''))"
proof -
  have a: "parse_value tokens cur =
           (let token = tokens ! cur in
            if ttype token = TokenType_STRING \<or> ttype token = TokenType_NUMBER
               \<or> ttype token = TokenType_BOOLEAN \<or> ttype token = TokenType_NULL
            then Inr (tvalue token, cur + 1)
            else if ttype token = TokenType_LEFT_BRACE then parse_object tokens (cur + 1)
            else if ttype token = TokenType_LEFT_BRACKET then parse_array tokens (cur + 1)
            else Inl (ValueError (''Unexpected token: '' @ ttype token)))"
    if "cur < length tokens" for tokens cur
    using that by (simp add: parse_value_step[of tokens cur] Let_def)
  have b: "parse_value tokens cur = Inl (ValueError ''Unexpected token: EOF'')"
    if "cur < length tokens" "ttype (tokens ! cur) = TokenType_EOF" for tokens cur
    using that by (simp add: parse_value_step[of tokens cur] TokenType_defs)
  have c: "scan_tokens s = Inr [Token TokenType_EOF PNone]
        \<and> parse_json s = Inl (ValueError ''Unexpected token: EOF'')"
    if "list_all (\<lambda>c. c \<in> set whitespace) s" for s
  proof -
    have s: "scan_tokens s = Inr [Token TokenType_EOF PNone]"
      using scan_whitespace_only[of 0 s "[]"] that by (simp add: scan_tokens_def)
    have "parse [Token TokenType_EOF PNone] = Inl (ValueError ''Unexpected token: EOF'')"
      using b[of 0 "[Token TokenType_EOF PNone]"] by (simp add: parse_def)
    with s show ?thesis by (simp add: parse_json_def)
  qed
  show ?thesis using a b c by blast
qed

theorem parse_value_dispatch_witness:
  "parse_json '''' = Inl (ValueError ''Unexpected token: EOF'')
   \<and> parse_json [CHR '' '', CHR 0x09, CHR 0x0A, CHR 0x0D] = Inl (ValueError ''Unexpected token: EOF'')
   \<and> parse_value [Token TokenType_BOOLEAN (PBool True), Token TokenType_EOF PNone] 0 =
       Inr (PBool True, 1)
   \<and> parse_value [Token TokenType_BOOLEAN (PBool True), Token TokenType_EOF PNone] 1 =
       Inl (ValueError ''Unexpected token: EOF'')
   \<and> parse_value [Token TokenType_COLON (PStr '':'')] 0 = Inl (ValueError ''Unexpected token: :'')"
proof -
  note d = parse_value_dispatch[THEN conjunct1, rule_format]
  note e = parse_value_dispatch[THEN conjunct2, THEN conjunct1, rule_format]
  note w = parse_value_dispatch[THEN conjunct2, THEN conjunct2, rule_format]
  have "parse_json '''' = Inl (ValueError ''Unexpected token: EOF'')"
    using w[of "''''"] by simp
  moreover have "parse_json [CHR '' '', CHR 0x09, CHR 0x0A, CHR 0x0D] =
      Inl (ValueError ''Unexpected token: EOF'')"
    using w[of "[CHR '' '', CHR 0x09, CHR 0x0A, CHR 0x0D]"] by (simp add: whitespace_def)
  moreover have "parse_value [Token TokenType_BOOLEAN (PBool True), Token TokenType_EOF PNone] 0 =
       Inr (PBool True, 1)"
    using d[of 0 "[Token TokenType_BOOLEAN (PBool True), Token TokenType_EOF PNone]"] by simp
  moreover have "parse_value [Token TokenType_BOOLEAN (PBool True), Token TokenType_EOF PNone] 1 =
       Inl (ValueError ''Unexpected token: EOF'')"
    using e[of 1 "[Token TokenType_BOOLEAN (PBool True), Token TokenType_EOF PNone]"] by simp
  moreover have "parse_value [Token TokenType_COLON (PStr '':'')] 0 =
      Inl (ValueError ''Unexpected token: :'')"
    using d[of 0 "[Token TokenType_COLON (PStr '':'')]"] by (simp add: TokenType_defs)
  ultimately show ?thesis by blast
qed

section \<open>Arrays and objects\<close>

text \<open>
  Claim C1, as amended. A comma after the last element of an array, or after the last
  entry of an object, followed at once by the closing bracket or brace is accepted: having
  consumed the comma, the loop tests for the closing token again, leaves, and
  \<^verbatim>\<open>expect\<close> consumes the closing token. The result holds the elements or entries read up
  to the comma, so \<^verbatim>\<open>parse_json("[1,2,]")\<close> is the array of 1 and 2 and
  \<^verbatim>\<open>parse_json('{"a":1,}')\<close> is the object with the one key \<^verbatim>\<open>a\<close>.
\<close>

theorem trailing_comma_accepted:
  "(\<forall>tokens arr cur v cur1.
      cur < length tokens \<and> ttype (tokens ! cur) \<noteq> TokenType_RIGHT_BRACKET
      \<and> parse_value tokens cur = Inr (v, cur1)
      \<and> cur1 + 1 < length tokens \<and> ttype (tokens ! cur1) = TokenType_COMMA
      \<and> ttype (tokens ! (cur1 + 1)) = TokenType_RIGHT_BRACKET
      \<longrightarrow> parse_array_loop tokens arr cur = Inr (PList (arr @ [v]), cur1 + 2))
   \<and> (\<forall>tokens obj cur v cur3.
      cur + 1 < length tokens \<and> ttype (tokens ! cur) = TokenType_STRING
      \<and> ttype (tokens ! (cur + 1)) = TokenType_COLON
      \<and> parse_value tokens (cur + 2) = Inr (v, cur3)
      \<and> cur3 + 1 < length tokens \<and> ttype (tokens ! cur3) = TokenType_COMMA
      \<and> ttype (tokens ! (cur3 + 1)) = TokenType_RIGHT_BRACE
      \<longrightarrow> parse_object_loop tokens obj cur =
           Inr (PDict (dict_setitem obj (tvalue (tokens ! cur)) v), cur3 + 2))
   \<and> parse_json ''[1,2,]'' = Inr (PList [PInt 1, PInt 2])
   \<and> parse_json (''{'' @ [dquote] @ ''a'' @ [dquote] @ '':1,}'') = Inr (PDict [(PStr ''a'', PInt 1)])"
proof -
  have a: "parse_array_loop tokens arr cur = Inr (PList (arr @ [v]), cur1 + 2)"
    if "cur < length tokens" "ttype (tokens ! cur) \<noteq> TokenType_RIGHT_BRACKET"
      "parse_value tokens cur = Inr (v, cur1)"
      "cur1 + 1 < length tokens" "ttype (tokens ! cur1) = TokenType_COMMA"
      "ttype (tokens ! (cur1 + 1)) = TokenType_RIGHT_BRACKET"
    for tokens arr cur v cur1
    using that
    by (simp add: parse_array_loop_step[of tokens arr cur]
          parse_array_loop_step[of tokens "arr @ [v]" "Suc cur1"])
  have b: "parse_object_loop tokens obj cur =
           Inr (PDict (dict_setitem obj (tvalue (tokens ! cur)) v), cur3 + 2)"
    if "cur + 1 < length tokens" "ttype (tokens ! cur) = TokenType_STRING"
      "ttype (tokens ! (cur + 1)) = TokenType_COLON"
      "parse_value tokens (cur + 2) = Inr (v, cur3)"
      "cur3 + 1 < length tokens" "ttype (tokens ! cur3) = TokenType_COMMA"
      "ttype (tokens ! (cur3 + 1)) = TokenType_RIGHT_BRACE"
    for tokens obj cur v cur3
    using that
    by (simp add: parse_object_loop_step[of tokens obj cur]
          parse_object_loop_step[of tokens "dict_setitem obj (tvalue (tokens ! cur)) v" "Suc cur3"]
          TokenType_defs)
  have c: "parse_json ''[1,2,]'' = Inr (PList [PInt 1, PInt 2])" by code_simp
  have d: "parse_json (''{'' @ [dquote] @ ''a'' @ [dquote] @ '':1,}'') =
      Inr (PDict [(PStr ''a'', PInt 1)])"
    by code_simp
  show ?thesis using a b c d by blast
qed

theorem trailing_comma_accepted_witness:
  "parse_array_loop
     [Token ''['' (PStr ''[''), Token TokenType_NULL PNone, Token '','' (PStr '',''),
      Token '']'' (PStr '']''), Token TokenType_EOF PNone] [] 1 = Inr (PList [PNone], 4)
   \<and> parse_object_loop
     [Token ''{'' (PStr ''{''), Token TokenType_STRING (PStr ''k''), Token '':'' (PStr '':''),
      Token TokenType_NULL PNone, Token '','' (PStr '',''), Token ''}'' (PStr ''}''),
      Token TokenType_EOF PNone] [] 1 = Inr (PDict [(PStr ''k'', PNone)], 6)"
proof -
  let ?a = "[Token ''['' (PStr ''[''), Token TokenType_NULL PNone, Token '','' (PStr '',''),
      Token '']'' (PStr '']''), Token TokenType_EOF PNone]"
  let ?o = "[Token ''{'' (PStr ''{''), Token TokenType_STRING (PStr ''k''), Token '':'' (PStr '':''),
      Token TokenType_NULL PNone, Token '','' (PStr '',''), Token ''}'' (PStr ''}''),
      Token TokenType_EOF PNone]"
  have pa: "parse_value ?a 1 = Inr (PNone, 2)" by code_simp
  have po: "parse_value ?o (1 + 2) = Inr (PNone, 4)" by code_simp
  have "parse_array_loop ?a [] 1 = Inr (PList ([] @ [PNone]), 2 + 2)"
    using pa
    by (intro trailing_comma_accepted[THEN conjunct1, rule_format])
       (simp add: TokenType_defs)
  moreover have "parse_object_loop ?o [] 1 =
      Inr (PDict (dict_setitem [] (tvalue (?o ! 1)) PNone), 4 + 2)"
    using po
    by (intro trailing_comma_accepted[THEN conjunct2, THEN conjunct1, rule_format])
       (simp add: TokenType_defs)
  ultimately show ?thesis by simp
qed

text \<open>
  The claim as stated fails on its own example: \<^verbatim>\<open>parse_json("[1,2,]")\<close> returns the array
  of 1 and 2, and an object with a trailing comma is returned as well.
\<close>

theorem trailing_comma_not_rejected:
  "parse_json ''[1,2,]'' = Inr (PList [PInt 1, PInt 2])
   \<and> \<not> isl (parse_json ''[1,2,]'')
   \<and> \<not> isl (parse_json (''{'' @ [dquote] @ ''a'' @ [dquote] @ '':1,}''))"
  by code_simp

text \<open>Tokens before the cursor play no part: the parser does the same behind any prefix.\<close>

lemma parse_shift:
  shows "parse_value (pre @ tokens) (length pre + cur) = map_sum id (apsnd ((+) (length pre))) (parse_value tokens cur)"
    and "parse_object (pre @ tokens) (length pre + cur) = map_sum id (apsnd ((+) (length pre))) (parse_object tokens cur)"
    and "parse_object_loop (pre @ tokens) obj (length pre + cur) =
           map_sum id (apsnd ((+) (length pre))) (parse_object_loop tokens obj cur)"
    and "parse_array (pre @ tokens) (length pre + cur) = map_sum id (apsnd ((+) (length pre))) (parse_array tokens cur)"
    and "parse_array_loop (pre @ tokens) arr (length pre + cur) =
           map_sum id (apsnd ((+) (length pre))) (parse_array_loop tokens arr cur)"
proof (induct tokens cur and tokens cur and tokens obj cur and tokens cur and tokens arr cur
       rule: parser_induct)
  case (1 tokens cur)
  have nth: "(pre @ tokens) ! (length pre + cur) = tokens ! cur" by (simp add: nth_append)
  from "1.hyps" show ?case
    by (simp add: parse_value_step[of tokens cur]
          parse_value_step[of "pre @ tokens" "length pre + cur"] nth add.assoc)
next
  case (2 tokens cur)
  then show ?case by (simp add: parse_object.simps)
next
  case (3 tokens obj cur)
  have nth: "(pre @ tokens) ! (length pre + k) = tokens ! k" for k by (simp add: nth_append)
  note st = parse_object_loop_step[of tokens obj cur]
  note st' = parse_object_loop_step[of "pre @ tokens" obj "length pre + cur"]
  show ?case
  proof (cases "cur + 1 < length tokens \<and> ttype (tokens ! cur) = TokenType_STRING
                \<and> ttype (tokens ! (cur + 1)) = TokenType_COLON")
    case False
    then show ?thesis
      using nth[of cur] nth[of "cur + 1"]
      by (auto simp: st st' add.assoc TokenType_defs)
  next
    case True
    then have lt1: "cur + 1 < length tokens" and str: "ttype (tokens ! cur) = TokenType_STRING"
      and col: "ttype (tokens ! (cur + 1)) = TokenType_COLON" by simp_all
    note ihv = "3.hyps"(1)[OF lt1 str col]
    show ?thesis
    proof (cases "parse_value tokens (cur + 2)")
      case (Inl e)
      with ihv lt1 str col show ?thesis
        using nth[of cur] nth[of "cur + 1"]
        by (simp add: st st' add.assoc TokenType_defs)
    next
      case (Inr p)
      obtain v cur3 where p: "p = (v, cur3)" by (cases p)
      have pv: "parse_value tokens (cur + 2) = Inr (v, cur3)" using Inr p by simp
      have pv': "parse_value (pre @ tokens) (length pre + cur + 2) = Inr (v, length pre + cur3)"
        using ihv pv by (simp add: add.assoc)
      show ?thesis
      proof (cases "cur3 < length tokens \<and> ttype (tokens ! cur3) = TokenType_COMMA")
        case True
        then have lt3: "cur3 < length tokens" and com: "ttype (tokens ! cur3) = TokenType_COMMA"
          by simp_all
        from "3.hyps"(2)[OF lt1 str col pv lt3 com] show ?thesis
          using lt1 str col pv pv' lt3 com nth[of cur] nth[of "cur + 1"] nth[of cur3]
          by (simp add: st st' add.assoc TokenType_defs)
      next
        case False
        then show ?thesis
          using lt1 str col pv pv' nth[of cur] nth[of "cur + 1"] nth[of cur3]
          by (auto simp: st st' add.assoc TokenType_defs parse_object_end_step)
      qed
    qed
  qed
next
  case (4 tokens cur)
  then show ?case by (simp add: parse_array.simps)
next
  case (5 tokens arr cur)
  have nth: "(pre @ tokens) ! (length pre + k) = tokens ! k" for k by (simp add: nth_append)
  note st = parse_array_loop_step[of tokens arr cur]
  note st' = parse_array_loop_step[of "pre @ tokens" arr "length pre + cur"]
  show ?case
  proof (cases "cur < length tokens \<and> ttype (tokens ! cur) \<noteq> TokenType_RIGHT_BRACKET")
    case False
    then show ?thesis
      using nth[of cur] by (auto simp: st st')
  next
    case True
    then have lt: "cur < length tokens" and nrb: "ttype (tokens ! cur) \<noteq> TokenType_RIGHT_BRACKET"
      by simp_all
    note ihv = "5.hyps"(1)[OF lt nrb]
    show ?thesis
    proof (cases "parse_value tokens cur")
      case (Inl e)
      with ihv lt nrb show ?thesis
        using nth[of cur] by (simp add: st st')
    next
      case (Inr p)
      obtain v cur1 where p: "p = (v, cur1)" by (cases p)
      have pv: "parse_value tokens cur = Inr (v, cur1)" using Inr p by simp
      have pv': "parse_value (pre @ tokens) (length pre + cur) = Inr (v, length pre + cur1)"
        using ihv pv by simp
      show ?thesis
      proof (cases "cur1 < length tokens \<and> ttype (tokens ! cur1) = TokenType_COMMA")
        case True
        then have lt1: "cur1 < length tokens" and com: "ttype (tokens ! cur1) = TokenType_COMMA"
          by simp_all
        from "5.hyps"(2)[OF lt nrb pv lt1 com] show ?thesis
          using lt nrb pv pv' lt1 com nth[of cur] nth[of cur1]
          by (simp add: st st' add.assoc)
      next
        case False
        then show ?thesis
          using lt nrb pv pv' nth[of cur] nth[of cur1]
          by (auto simp: st st' add.assoc parse_array_end_step)
      qed
    qed
  qed
qed

section \<open>Duplicate keys\<close>

lemma value_at:
  assumes "parse_value toks 0 = Inr (v, length toks)"
  shows "parse_value (pre @ toks @ rest) (length pre) = Inr (v, length pre + length toks)"
proof -
  have "parse_value (toks @ rest) 0 = Inr (v, length toks)"
    using assms by (rule parse_prefix(1)) simp
  then show ?thesis
    using parse_shift(1)[of pre "toks @ rest" 0] by simp
qed

lemma object_of_entries:
  "list_all (\<lambda>(k, toks, v). parse_value toks 0 = Inr (v, length toks)) es \<Longrightarrow>
   parse_object_loop (pre @ entries_tokens es @ Token TokenType_RIGHT_BRACE (PStr ''}'') # post)
       obj (length pre) =
     Inr (PDict (foldl (\<lambda>d (k, toks, v). dict_setitem d (PStr k) v) obj es),
          length pre + length (entries_tokens es) + 1)"
proof (induct es arbitrary: pre obj rule: entries_tokens.induct)
  case 1
  show ?case
    by (simp add: parse_object_loop_step[of _ obj "length pre"] nth_append)
next
  case (2 k toks v)
  let ?rb = "Token TokenType_RIGHT_BRACE (PStr ''}'')"
  let ?pre = "pre @ [Token TokenType_STRING (PStr k), Token TokenType_COLON (PStr '':'')]"
  define ts where "ts = pre @ entries_tokens [(k, toks, v)] @ ?rb # post"
  define c3 where "c3 = length pre + 2 + length toks"
  have ts: "ts = ?pre @ toks @ ?rb # post" by (simp add: ts_def)
  have pv: "parse_value ts (length pre + 2) = Inr (v, c3)"
    using value_at[of toks v ?pre "?rb # post"] "2.prems" unfolding ts c3_def by simp
  have n: "ts ! length pre = Token TokenType_STRING (PStr k)"
    "ts ! (length pre + 1) = Token TokenType_COLON (PStr '':'')"
    "ts ! c3 = ?rb"
    by (simp_all add: ts c3_def nth_append)
  have lt: "length pre + 1 < length ts" "c3 < length ts" by (simp_all add: ts c3_def)
  have "parse_object_loop ts obj (length pre) = Inr (PDict (dict_setitem obj (PStr k) v), c3 + 1)"
    using pv n lt
    by (simp add: parse_object_loop_step[of ts obj "length pre"] parse_object_end_step
          TokenType_defs)
  then show ?case by (simp add: ts_def c3_def)
next
  case (3 k toks v e es)
  let ?rb = "Token TokenType_RIGHT_BRACE (PStr ''}'')"
  let ?pre = "pre @ [Token TokenType_STRING (PStr k), Token TokenType_COLON (PStr '':'')]"
  let ?pre2 = "?pre @ toks @ [Token TokenType_COMMA (PStr '','')]"
  define ts where "ts = pre @ entries_tokens ((k, toks, v) # e # es) @ ?rb # post"
  define c3 where "c3 = length pre + 2 + length toks"
  have ts: "ts = ?pre @ toks @ Token TokenType_COMMA (PStr '','') # entries_tokens (e # es) @ ?rb # post"
    by (simp add: ts_def)
  have ts2: "ts = ?pre2 @ entries_tokens (e # es) @ ?rb # post" by (simp add: ts_def)
  have v: "parse_value toks 0 = Inr (v, length toks)"
    and rest: "list_all (\<lambda>(k, toks, v). parse_value toks 0 = Inr (v, length toks)) (e # es)"
    using "3.prems" by simp_all
  have pv: "parse_value ts (length pre + 2) = Inr (v, c3)"
    using value_at[OF v, of ?pre] unfolding ts c3_def by simp
  have n: "ts ! length pre = Token TokenType_STRING (PStr k)"
    "ts ! (length pre + 1) = Token TokenType_COLON (PStr '':'')"
    "ts ! c3 = Token TokenType_COMMA (PStr '','')"
    by (simp_all add: ts c3_def nth_append)
  have lt: "length pre + 1 < length ts" "c3 < length ts" by (simp_all add: ts c3_def)
  have l2: "length ?pre2 = c3 + 1" by (simp add: c3_def)
  have ih: "parse_object_loop ts (dict_setitem obj (PStr k) v) (c3 + 1) =
      Inr (PDict (foldl (\<lambda>d (k, toks, v). dict_setitem d (PStr k) v)
                    (dict_setitem obj (PStr k) v) (e # es)),
           c3 + 1 + length (entries_tokens (e # es)) + 1)"
    using "3.hyps"[OF rest, of ?pre2 "dict_setitem obj (PStr k) v"]
    unfolding ts2[symmetric] l2 .
  have "parse_object_loop ts obj (length pre) =
      parse_object_loop ts (dict_setitem obj (PStr k) v) (c3 + 1)"
    using pv n lt
    by (simp add: parse_object_loop_step[of ts obj "length pre"] TokenType_defs)
  then show ?case
    unfolding ih by (simp add: ts_def c3_def)
qed

lemma dict_setitem_keys:
  "map fst (dict_setitem d k v) = (if k \<in> set (map fst d) then map fst d else map fst d @ [k])"
proof (induct d)
  case Nil
  show ?case by simp
next
  case (Cons kv d)
  obtain k' v' where kv: "kv = (k', v')" by (cases kv)
  show ?case
  proof (cases "k' = k")
    case True
    then show ?thesis by (simp add: kv)
  next
    case False
    then show ?thesis using Cons by (simp add: kv)
  qed
qed

lemma dict_setitem_map_of: "map_of (dict_setitem d k v) = (map_of d)(k \<mapsto> v)"
  by (induct d) (auto simp: fun_eq_iff)

lemma dict_of_pairs_keys:
  "map fst (foldl (\<lambda>d (k, v). dict_setitem d k v) [] kvs) = rev (remdups (rev (map fst kvs)))"
proof (induct kvs rule: rev_induct)
  case Nil
  show ?case by simp
next
  case (snoc kv kvs)
  obtain k v where kv: "kv = (k, v)" by (cases kv)
  have "set (map fst (foldl (\<lambda>d (k, v). dict_setitem d k v) [] kvs)) = set (map fst kvs)"
    unfolding snoc by simp
  then show ?case
    using snoc by (simp add: kv dict_setitem_keys)
qed

lemma dict_of_pairs_map_of:
  "map_of (foldl (\<lambda>d (k, v). dict_setitem d k v) [] kvs) = map_of (rev kvs)"
proof (induct kvs rule: rev_induct)
  case Nil
  show ?case by simp
next
  case (snoc kv kvs)
  obtain k v where kv: "kv = (k, v)" by (cases kv)
  show ?case using snoc by (simp add: kv dict_setitem_map_of)
qed

lemma dict_of_entries:
  "foldl (\<lambda>d (k, toks, v). dict_setitem d (PStr k) v) obj es =
   foldl (\<lambda>d (k, v). dict_setitem d k v) obj (map (\<lambda>(k, toks, v). (PStr k, v)) es)"
  by (induct es arbitrary: obj) (auto simp: case_prod_beta)

text \<open>
  Claim C6. Take any entries, each a key with the tokens of a value and that value, and
  the object written from them between braces, anywhere in a token list. \<^verbatim>\<open>parse_value\<close>
  at the left brace returns the dictionary obtained by storing the entries in order with
  \<^verbatim>\<open>obj[key] = value\<close>, from the empty dictionary. Its keys are the keys of the entries, each
  once, in the order of their first occurrence (\<open>rev (remdups (rev ks))\<close> keeps the
  first occurrence of each element of \<open>ks\<close>), and each key is bound to the value of the
  last entry with that key. So \<^verbatim>\<open>parse_json('{"a":1,"a":2}')\<close> is the object with the one
  key \<^verbatim>\<open>a\<close>, bound to the integer 2.
\<close>

theorem duplicate_key_last_write_wins:
  "(\<forall>es pre post.
      list_all (\<lambda>(k, toks, v). parse_value toks 0 = Inr (v, length toks)) es
      \<longrightarrow> (let d = foldl (\<lambda>d (k, toks, v). dict_setitem d (PStr k) v) [] es in
           parse_value
             (pre @ Token TokenType_LEFT_BRACE (PStr ''{'') # entries_tokens es
              @ Token TokenType_RIGHT_BRACE (PStr ''}'') # post) (length pre) =
             Inr (PDict d, length pre + length (entries_tokens es) + 2)
           \<and> map fst d = rev (remdups (rev (map (\<lambda>(k, toks, v). PStr k) es)))
           \<and> map_of d = map_of (rev (map (\<lambda>(k, toks, v). (PStr k, v)) es))))
   \<and> parse_json (''{'' @ [dquote] @ ''a'' @ [dquote] @ '':1,'' @ [dquote] @ ''a'' @ [dquote] @ '':2}'') =
       Inr (PDict [(PStr ''a'', PInt 2)])"
proof -
  have gen: "(let d = foldl (\<lambda>d (k, toks, v). dict_setitem d (PStr k) v) [] es in
           parse_value
             (pre @ Token TokenType_LEFT_BRACE (PStr ''{'') # entries_tokens es
              @ Token TokenType_RIGHT_BRACE (PStr ''}'') # post) (length pre) =
             Inr (PDict d, length pre + length (entries_tokens es) + 2)
           \<and> map fst d = rev (remdups (rev (map (\<lambda>(k, toks, v). PStr k) es)))
           \<and> map_of d = map_of (rev (map (\<lambda>(k, toks, v). (PStr k, v)) es)))"
    if ok: "list_all (\<lambda>(k, toks, v). parse_value toks 0 = Inr (v, length toks)) es"
    for es pre post
  proof -
    let ?lb = "Token TokenType_LEFT_BRACE (PStr ''{'')"
    let ?rb = "Token TokenType_RIGHT_BRACE (PStr ''}'')"
    define ts where "ts = pre @ ?lb # entries_tokens es @ ?rb # post"
    define d where "d = foldl (\<lambda>d (k, toks, v). dict_setitem d (PStr k) v) [] es"
    have ts: "ts = (pre @ [?lb]) @ entries_tokens es @ ?rb # post" by (simp add: ts_def)
    have loop: "parse_object_loop ts [] (length pre + 1) =
        Inr (PDict d, length pre + 1 + length (entries_tokens es) + 1)"
      using object_of_entries[OF ok, of "pre @ [?lb]" post "[]"] unfolding ts d_def by simp
    have at: "ts ! length pre = ?lb" and lt: "length pre < length ts"
      by (simp_all add: ts_def nth_append)
    have pv: "parse_value ts (length pre) = Inr (PDict d, length pre + length (entries_tokens es) + 2)"
      using loop at lt
      by (simp add: parse_value_step[of ts "length pre"] parse_object.simps TokenType_defs)
    have km: "map fst (map (\<lambda>(k, toks, v). (PStr k, v)) es) = map (\<lambda>(k, toks, v). PStr k) es"
      by (simp add: case_prod_beta)
    have keys: "map fst d = rev (remdups (rev (map (\<lambda>(k, toks, v). PStr k) es)))"
      unfolding d_def dict_of_entries dict_of_pairs_keys km ..
    have vals: "map_of d = map_of (rev (map (\<lambda>(k, toks, v). (PStr k, v)) es))"
      unfolding d_def dict_of_entries dict_of_pairs_map_of ..
    show ?thesis
      using pv keys vals unfolding Let_def d_def ts_def by blast
  qed
  have ex: "parse_json (''{'' @ [dquote] @ ''a'' @ [dquote] @ '':1,'' @ [dquote] @ ''a'' @ [dquote] @ '':2}'') =
       Inr (PDict [(PStr ''a'', PInt 2)])"
    by code_simp
  show ?thesis using gen ex by blast
qed

theorem duplicate_key_last_write_wins_witness:
  "parse_value
     [Token TokenType_LEFT_BRACE (PStr ''{''),
      Token TokenType_STRING (PStr ''b''), Token TokenType_COLON (PStr '':''),
      Token TokenType_NUMBER (PInt 1), Token TokenType_COMMA (PStr '',''),
      Token TokenType_STRING (PStr ''a''), Token TokenType_COLON (PStr '':''),
      Token TokenType_NUMBER (PInt 2), Token TokenType_COMMA (PStr '',''),
      Token TokenType_STRING (PStr ''b''), Token TokenType_COLON (PStr '':''),
      Token TokenType_NUMBER (PInt 3),
      Token TokenType_RIGHT_BRACE (PStr ''}''), Token TokenType_EOF PNone] 0 =
   Inr (PDict [(PStr ''b'', PInt 3), (PStr ''a'', PInt 2)], 13)"
proof -
  let ?es = "[(''b'', [Token TokenType_NUMBER (PInt 1)], PInt 1),
              (''a'', [Token TokenType_NUMBER (PInt 2)], PInt 2),
              (''b'', [Token TokenType_NUMBER (PInt 3)], PInt 3)]"
  have ok: "list_all (\<lambda>(k, toks, v). parse_value toks 0 = Inr (v, length toks)) ?es"
    by (simp add: parse_value_step TokenType_defs)
  from duplicate_key_last_write_wins[THEN conjunct1, rule_format, OF ok,
      of "[]" "[Token TokenType_EOF PNone]"]
  show ?thesis by (simp add: Let_def)
qed

end
